theory Spec2Isabelle
  imports Complex_Main "HOL-Library.Multiset"
begin

section \<open>Data model of the Copilot query engine\<close>

text \<open>
  Nodes and edges are the reactflow objects the engine reads. Only the fields the engine
  looks at are kept: \<open>id\<close> and, under \<open>data\<close>, \<open>category\<close>, \<open>level\<close>, \<open>label\<close> and
  the optional \<open>metrics\<close> record of \<open>graphData.ts\<close>.
\<close>

datatype category = Goal | Kpi | Design | Verify

datatype model_type = Sysml | Modelica | Fmu | Simulink

text \<open>\<open>modelType?: 'sysml' | 'modelica' | 'fmu' | 'simulink' | null\<close>: absent, null or a type.\<close>

datatype model_field = MUndefined | MNull | MType model_type

record kpi_metrics =
  achieved :: bool
  modelType :: model_field
  modelCovered :: bool
  achievementRate :: "rat option"

record node =
  nid :: string
  category :: category
  level :: "int option"
  label :: string
  metrics :: "kpi_metrics option"

record edge =
  eid :: string
  source :: string
  target :: string

text \<open>The engine object: the two private arrays \<open>this.nodes\<close> and \<open>this.edges\<close>.\<close>

record engine =
  nodes :: "node list"
  edges :: "edge list"

text \<open>
  \<open>ChainResult\<close>: two JavaScript \<open>Set<string>\<close>s. A \<open>Set\<close> keeps its members in
  insertion order without repetition, so it is a list here and \<open>add\<close> appends a new
  member only.
\<close>

definition set_add :: "'a \<Rightarrow> 'a list \<Rightarrow> 'a list" where
  "set_add x s = (if x \<in> set s then s else s @ [x])"

definition new_Set :: "'a list \<Rightarrow> 'a list" where
  "new_Set xs = fold set_add xs []"

record chain_result =
  cnodes :: "string list"
  cedges :: "string list"

section \<open>Graph traversals of \<open>CopilotEngine\<close>\<close>

text \<open>
  The three closures \<open>traverse\<close>, \<open>traverseUp\<close> and \<open>traverseDown\<close> share the sets
  \<open>relatedNodes\<close>, \<open>relatedEdges\<close> and \<open>visited\<close> of their enclosing method; the model
  threads them as a state. Each closure calls itself from inside
  \<open>this.edges.forEach\<close>, so the recursion carries a depth budget: \<open>None\<close> is "budget
  exhausted", and the termination theorems below show that the budget
  \<open>fuel_of\<close> is always enough.
\<close>

record tstate =
  visited :: "string list"
  relatedNodes :: "string list"
  relatedEdges :: "string list"

definition init_state :: tstate where
  "init_state = \<lparr>visited = [], relatedNodes = [], relatedEdges = []\<rparr>"

fun forEach :: "'a list \<Rightarrow> ('a \<Rightarrow> 's \<Rightarrow> 's option) \<Rightarrow> 's \<Rightarrow> 's option" where
  "forEach [] f s = Some s"
| "forEach (x # xs) f s = (case f x s of None \<Rightarrow> None | Some s' \<Rightarrow> forEach xs f s')"

fun traverse :: "nat \<Rightarrow> edge list \<Rightarrow> string \<Rightarrow> tstate \<Rightarrow> tstate option" where
  "traverse 0 es nodeId st = None"
| "traverse (Suc n) es nodeId st =
    (if nodeId \<in> set (visited st) then Some st
     else
       (case forEach es
          (\<lambda>e s. if target e = nodeId \<and> source e \<notin> set (visited s)
                 then traverse n es (source e)
                        (s\<lparr>relatedEdges := set_add (eid e) (relatedEdges s),
                           relatedNodes := set_add (source e) (relatedNodes s)\<rparr>)
                 else Some s)
          (st\<lparr>visited := set_add nodeId (visited st),
              relatedNodes := set_add nodeId (relatedNodes st)\<rparr>) of
          None \<Rightarrow> None
        | Some st2 \<Rightarrow>
            forEach es
              (\<lambda>e s. if source e = nodeId \<and> target e \<notin> set (visited s)
                     then traverse n es (target e)
                            (s\<lparr>relatedEdges := set_add (eid e) (relatedEdges s),
                               relatedNodes := set_add (target e) (relatedNodes s)\<rparr>)
                     else Some s)
              st2))"

fun traverseUp :: "nat \<Rightarrow> edge list \<Rightarrow> string \<Rightarrow> tstate \<Rightarrow> tstate option" where
  "traverseUp 0 es currentNodeId st = None"
| "traverseUp (Suc n) es currentNodeId st =
    (if currentNodeId \<in> set (visited st) then Some st
     else
       forEach es
         (\<lambda>e s. if target e = currentNodeId
                then traverseUp n es (source e)
                       (s\<lparr>relatedEdges := set_add (eid e) (relatedEdges s),
                          relatedNodes := set_add (source e) (relatedNodes s)\<rparr>)
                else Some s)
         (st\<lparr>visited := set_add currentNodeId (visited st),
             relatedNodes := set_add currentNodeId (relatedNodes st)\<rparr>))"

fun traverseDown :: "nat \<Rightarrow> edge list \<Rightarrow> string \<Rightarrow> tstate \<Rightarrow> tstate option" where
  "traverseDown 0 es currentNodeId st = None"
| "traverseDown (Suc n) es currentNodeId st =
    (if currentNodeId \<in> set (visited st) then Some st
     else
       forEach es
         (\<lambda>e s. if source e = currentNodeId
                then traverseDown n es (target e)
                       (s\<lparr>relatedEdges := set_add (eid e) (relatedEdges s),
                          relatedNodes := set_add (target e) (relatedNodes s)\<rparr>)
                else Some s)
         (st\<lparr>visited := set_add currentNodeId (visited st),
             relatedNodes := set_add currentNodeId (relatedNodes st)\<rparr>))"

definition result_of :: "tstate \<Rightarrow> chain_result" where
  "result_of st = \<lparr>cnodes = relatedNodes st, cedges = relatedEdges st\<rparr>"

text \<open>\<open>traceChain\<close> with an explicit budget for every call of \<open>traverse\<close>.\<close>

definition traceChain_fuel :: "nat \<Rightarrow> engine \<Rightarrow> string list \<Rightarrow> chain_result option" where
  "traceChain_fuel n g startNodeIds =
     map_option result_of
       (forEach startNodeIds
          (\<lambda>nodeId s. if list_ex (\<lambda>m. nid m = nodeId) (nodes g)
                      then traverse n (edges g) nodeId s else Some s)
          init_state)"

definition traceImpact_fuel :: "nat \<Rightarrow> engine \<Rightarrow> string \<Rightarrow> chain_result option" where
  "traceImpact_fuel n g nodeId = map_option result_of (traverseUp n (edges g) nodeId init_state)"

definition traceDependencies_fuel :: "nat \<Rightarrow> engine \<Rightarrow> string \<Rightarrow> chain_result option" where
  "traceDependencies_fuel n g nodeId =
     map_option result_of (traverseDown n (edges g) nodeId init_state)"

text \<open>
  A recursion never goes deeper than the number of distinct IDs it can meet (the
  endpoints of the edges and the start ID), plus one for the call that finds its
  argument visited.
\<close>

definition fuel_of :: "edge list \<Rightarrow> nat" where
  "fuel_of es = 2 * length es + 2"

definition traceChain :: "engine \<Rightarrow> string list \<Rightarrow> chain_result option" where
  "traceChain g startNodeIds = traceChain_fuel (fuel_of (edges g)) g startNodeIds"

definition traceImpact :: "engine \<Rightarrow> string \<Rightarrow> chain_result option" where
  "traceImpact g nodeId = traceImpact_fuel (fuel_of (edges g)) g nodeId"

definition traceDependencies :: "engine \<Rightarrow> string \<Rightarrow> chain_result option" where
  "traceDependencies g nodeId = traceDependencies_fuel (fuel_of (edges g)) g nodeId"


section \<open>The other reads of \<open>CopilotEngine\<close>\<close>

text \<open>
  \<open>QueryCondition\<close>: every field is optional. \<open>q_modelType = MUndefined\<close> is the absent
  field; \<open>MNull\<close> and \<open>MType t\<close> are the values the filter compares with \<open>===\<close>.
\<close>

record query_condition =
  q_category :: "category list option"
  q_achieved :: "bool option"
  q_modelType :: model_field
  q_level :: "int option"
  q_hasModel :: "bool option"
  q_nodeIds :: "string list option"

definition no_condition :: query_condition where
  "no_condition = \<lparr>q_category = None, q_achieved = None, q_modelType = MUndefined,
     q_level = None, q_hasModel = None, q_nodeIds = None\<rparr>"

text \<open>\<open>n.data.metrics?.modelType\<close> and the truthiness of a model type.\<close>

definition metrics_modelType :: "node \<Rightarrow> model_field" where
  "metrics_modelType n = (case metrics n of None \<Rightarrow> MUndefined | Some m \<Rightarrow> modelType m)"

fun truthy_model :: "model_field \<Rightarrow> bool" where
  "truthy_model (MType t) = True"
| "truthy_model MNull = False"
| "truthy_model MUndefined = False"

definition queryNodes :: "engine \<Rightarrow> query_condition \<Rightarrow> node list" where
  "queryNodes g c =
    (let result = nodes g;
         result = (case q_category c of
                     Some cs \<Rightarrow> if 0 < length cs
                                then filter (\<lambda>n. category n \<in> set cs) result else result
                   | None \<Rightarrow> result);
         result = (case q_achieved c of
                     Some a \<Rightarrow> filter (\<lambda>n. if category n \<noteq> Kpi then False
                                           else map_option achieved (metrics n) = Some a) result
                   | None \<Rightarrow> result);
         result = (if q_modelType c \<noteq> MUndefined
                   then filter (\<lambda>n. if category n \<noteq> Kpi then False
                                      else metrics_modelType n = q_modelType c) result
                   else result);
         result = (case q_level c of
                     Some l \<Rightarrow> filter (\<lambda>n. level n = Some l) result
                   | None \<Rightarrow> result);
         result = (case q_hasModel c of
                     Some h \<Rightarrow> filter (\<lambda>n. if category n \<noteq> Kpi then False
                                           else truthy_model (metrics_modelType n) = h) result
                   | None \<Rightarrow> result);
         result = (case q_nodeIds c of
                     Some ids \<Rightarrow> if 0 < length ids
                                 then filter (\<lambda>n. nid n \<in> set ids) result else result
                   | None \<Rightarrow> result)
     in result)"

text \<open>\<open>calculateStats\<close>: the counters of \<open>byStatus\<close> and the histogram \<open>byCategory\<close>.\<close>

record by_status =
  s_achieved :: nat
  s_unachieved :: nat
  s_partial :: nat
  s_withModel :: nat
  s_withoutModel :: nat

record stats =
  total :: nat
  byCategory :: "category \<Rightarrow> nat option"
  byStatus :: by_status

definition stats_step :: "node \<Rightarrow> (category \<Rightarrow> nat option) \<times> by_status
    \<Rightarrow> (category \<Rightarrow> nat option) \<times> by_status" where
  "stats_step n acc =
    (let bc = (fst acc)(category n \<mapsto> (case fst acc (category n) of None \<Rightarrow> 0 | Some k \<Rightarrow> k) + 1);
         bs = snd acc
     in case (category n = Kpi, metrics n) of
          (True, Some m) \<Rightarrow>
            (let bs1 = (if achieved m then bs\<lparr>s_achieved := s_achieved bs + 1\<rparr>
                        else bs\<lparr>s_unachieved := s_unachieved bs + 1\<rparr>);
                 bs2 = (if truthy_model (modelType m)
                        then bs1\<lparr>s_withModel := s_withModel bs1 + 1\<rparr>
                        else bs1\<lparr>s_withoutModel := s_withoutModel bs1 + 1\<rparr>)
             in (bc, bs2))
        | _ \<Rightarrow> (bc, bs))"

definition calculateStats :: "engine \<Rightarrow> node list option \<Rightarrow> stats" where
  "calculateStats g nodesArg =
    (let targetNodes = (case nodesArg of Some ns \<Rightarrow> ns | None \<Rightarrow> nodes g);
         acc = fold stats_step targetNodes
                 (Map.empty, \<lparr>s_achieved = 0, s_unachieved = 0, s_partial = 0,
                              s_withModel = 0, s_withoutModel = 0\<rparr>)
     in \<lparr>total = length targetNodes, byCategory = fst acc, byStatus = snd acc\<rparr>)"

datatype direction = Incoming | Outgoing | Both

definition getConnectedNodes :: "engine \<Rightarrow> string \<Rightarrow> direction \<Rightarrow> node list" where
  "getConnectedNodes g nodeId dir =
    (let connectedIds =
           fold (\<lambda>e ids.
                   (let ids1 = (if (dir = Incoming \<or> dir = Both) \<and> target e = nodeId
                                then set_add (source e) ids else ids)
                    in if (dir = Outgoing \<or> dir = Both) \<and> source e = nodeId
                       then set_add (target e) ids1 else ids1))
                (edges g) []
     in filter (\<lambda>n. nid n \<in> set connectedIds) (nodes g))"

section \<open>\<open>AdvancedAnalyzer\<close>: correlations and priorities\<close>

text \<open>
  The analyzer reads the graph through its engine only. The insight sentences and the
  reasons of a priority are fixed Chinese texts; they are named by constructors here.
  \<open>Array.prototype.sort\<close> with the comparator \<open>(a, b) => key b - key a\<close> is a
  stable sort by decreasing key.
\<close>

definition sort_desc :: "('a \<Rightarrow> nat) \<Rightarrow> 'a list \<Rightarrow> 'a list" where
  "sort_desc key xs = sort_key (\<lambda>x. - int (key x)) xs"

record kpi_ref =
  k_id :: string
  k_name :: string
  k_achieved :: bool

datatype strength = Strong | Medium | Weak

datatype insight = Insight_neither | Insight_one | Insight_both | Insight_generic

record correlation_analysis =
  kpi1 :: kpi_ref
  kpi2 :: kpi_ref
  sharedDesignParams :: nat
  sharedVerifications :: nat
  correlationStrength :: strength
  insight :: insight

definition generateCorrelationInsight :: "node \<Rightarrow> node \<Rightarrow> nat \<Rightarrow> nat \<Rightarrow> insight" where
  "generateCorrelationInsight k1 k2 sharedDesign sharedVerify =
    (let a1 = map_option achieved (metrics k1);
         a2 = map_option achieved (metrics k2);
         neither = (a1 \<noteq> Some True \<and> a2 \<noteq> Some True);
         oneAchieved = (a1 \<noteq> a2)
     in if 2 \<le> sharedDesign
        then (if neither then Insight_neither
              else if oneAchieved then Insight_one else Insight_both)
        else Insight_generic)"

text \<open>
  \<open>new Set(engine.getConnectedNodes(id, 'outgoing').filter(category).map(n => n.id))\<close>
\<close>

definition outgoing_ids :: "engine \<Rightarrow> category \<Rightarrow> string \<Rightarrow> string list" where
  "outgoing_ids g c i =
     new_Set (map nid (filter (\<lambda>n. category n = c) (getConnectedNodes g i Outgoing)))"

text \<open>The body of the inner loop: the entry pushed for \<open>kpis[i]\<close>, \<open>kpis[j]\<close>, if any.\<close>

definition correlate :: "engine \<Rightarrow> node \<Rightarrow> node \<Rightarrow> correlation_analysis list" where
  "correlate g k1 k2 =
    (let design1 = outgoing_ids g Design (nid k1);
         design2 = outgoing_ids g Design (nid k2);
         sharedDesign = filter (\<lambda>i. i \<in> set design2) design1;
         verify1 = outgoing_ids g Verify (nid k1);
         verify2 = outgoing_ids g Verify (nid k2);
         sharedVerify = filter (\<lambda>i. i \<in> set verify2) verify1
     in if 0 < length sharedDesign \<or> 0 < length sharedVerify
        then [\<lparr>kpi1 = \<lparr>k_id = nid k1, k_name = label k1,
                       k_achieved = (case metrics k1 of None \<Rightarrow> False | Some m \<Rightarrow> achieved m)\<rparr>,
               kpi2 = \<lparr>k_id = nid k2, k_name = label k2,
                       k_achieved = (case metrics k2 of None \<Rightarrow> False | Some m \<Rightarrow> achieved m)\<rparr>,
               sharedDesignParams = length sharedDesign,
               sharedVerifications = length sharedVerify,
               correlationStrength =
                 (if 2 \<le> length sharedDesign then Strong
                  else if 1 \<le> length sharedDesign then Medium else Weak),
               insight = generateCorrelationInsight k1 k2 (length sharedDesign)
                           (length sharedVerify)\<rparr>]
        else [])"

text \<open>The two nested loops \<open>for i\<close>, \<open>for j = i + 1\<close> over \<open>kpis\<close>.\<close>

fun correlate_all :: "engine \<Rightarrow> node list \<Rightarrow> correlation_analysis list" where
  "correlate_all g [] = []"
| "correlate_all g (k1 # rest) = concat (map (correlate g k1) rest) @ correlate_all g rest"

definition analyzeCorrelations :: "engine \<Rightarrow> correlation_analysis list" where
  "analyzeCorrelations g =
    (let kpis = queryNodes g (no_condition\<lparr>q_category := Some [Kpi]\<rparr>)
     in sort_desc sharedDesignParams (correlate_all g kpis))"

datatype reason = Reason_unachieved | Reason_no_model | Reason_no_verify | Reason_level_one
  | Reason_impact nat

record priority =
  nodeId :: string
  nodeName :: string
  p_category :: category
  priorityScore :: nat
  reasons :: "reason list"

text \<open>One round of \<open>for (const kpi of kpis)\<close>, given the traced dependencies.\<close>

definition priority_of :: "engine \<Rightarrow> node \<Rightarrow> chain_result \<Rightarrow> priority list" where
  "priority_of g kpi impact =
    (let score = 0; rs = [];
         unach = (map_option achieved (metrics kpi) \<noteq> Some True);
         score = (if unach then score + 50 else score);
         rs = (if unach then rs @ [Reason_unachieved] else rs);
         nomodel = (\<not> truthy_model (metrics_modelType kpi));
         score = (if nomodel then score + 30 else score);
         rs = (if nomodel then rs @ [Reason_no_model] else rs);
         hasVerify = list_ex (\<lambda>n. category n = Verify) (getConnectedNodes g (nid kpi) Outgoing);
         score = (if \<not> hasVerify then score + 20 else score);
         rs = (if \<not> hasVerify then rs @ [Reason_no_verify] else rs);
         score = (if level kpi = Some 1 then score + 10 else score);
         rs = (if level kpi = Some 1 then rs @ [Reason_level_one] else rs);
         score = score + min (length (cnodes impact)) 20;
         rs = (if 5 < length (cnodes impact)
               then rs @ [Reason_impact (length (cnodes impact))] else rs)
     in if 0 < score
        then [\<lparr>nodeId = nid kpi, nodeName = label kpi, p_category = category kpi,
               priorityScore = score, reasons = rs\<rparr>]
        else [])"

definition prioritizeNodes :: "engine \<Rightarrow> priority list option" where
  "prioritizeNodes g =
    (let kpis = queryNodes g (no_condition\<lparr>q_category := Some [Kpi]\<rparr>)
     in map_option (sort_desc priorityScore)
          (forEach kpis
             (\<lambda>kpi priorities.
                 map_option (\<lambda>impact. priorities @ priority_of g kpi impact)
                   (traceDependencies g (nid kpi)))
             []))"


section \<open>The query parser \<open>parseQuery\<close>\<close>

text \<open>
  A JavaScript string is a sequence of UTF-16 code units, and the keywords of the parser
  are Chinese, so a query is a list of code units here (\<open>ascii\<close> embeds a literal of
  Basic Latin). A regular expression that is an alternation of literal words is a test
  for one of the words occurring in the string.
\<close>

type_synonym ustring = "int list"

definition ascii :: "string \<Rightarrow> ustring" where
  "ascii s = map of_char s"

definition starts_with :: "ustring \<Rightarrow> ustring \<Rightarrow> bool" where
  "starts_with s w = (take (length w) s = w)"

fun js_includes :: "ustring \<Rightarrow> ustring \<Rightarrow> bool" where
  "js_includes [] w = (w = [])"
| "js_includes (c # cs) w = (starts_with (c # cs) w \<or> js_includes cs w)"

definition test_any :: "ustring list \<Rightarrow> ustring \<Rightarrow> bool" where
  "test_any ws s = list_ex (js_includes s) ws"

text \<open>White space of \<open>String.prototype.trim\<close> and of the class \<open>\s\<close>.\<close>

definition is_space :: "int \<Rightarrow> bool" where
  "is_space c = (c \<in> set [0x09, 0x0A, 0x0B, 0x0C, 0x0D, 0x20, 0xA0, 0x1680, 0x2028, 0x2029,
                          0x202F, 0x205F, 0x3000, 0xFEFF] \<or> (0x2000 \<le> c \<and> c \<le> 0x200A))"

definition trim :: "ustring \<Rightarrow> ustring" where
  "trim s = rev (dropWhile is_space (rev (dropWhile is_space s)))"

text \<open>
  \<open>String.prototype.toLowerCase\<close> follows the Unicode case tables, which are no part of
  the program: \<open>parseQuery\<close> takes it as a parameter. \<open>ascii_toLowerCase\<close> is what it does
  on a string of Basic Latin and caseless (CJK) code units.
\<close>

definition ascii_toLowerCase :: "ustring \<Rightarrow> ustring" where
  "ascii_toLowerCase s = map (\<lambda>c. if 0x41 \<le> c \<and> c \<le> 0x5A then c + 0x20 else c) s"

subsection \<open>Keyword sets, in the order of the source\<close>

definition stats_words :: "ustring list" where
  "stats_words = [[0x7EDF, 0x8BA1], [0x591A, 0x5C11], [0x51E0, 0x4E2A], [0x6570, 0x91CF],
                  [0x5360, 0x6BD4], [0x6BD4, 0x4F8B], [0x767E, 0x5206]]"

definition chain_words :: "ustring list" where
  "chain_words = [[0x94FE, 0x8DEF], [0x8DEF, 0x5F84], [0x8FFD, 0x8E2A], [0x5173, 0x7CFB]]"

definition impact_words :: "ustring list" where
  "impact_words = [[0x5F71, 0x54CD], [0x6CE2, 0x53CA], [0x8FDE, 0x5E26]]"

definition issue_words :: "ustring list" where
  "issue_words = [[0x95EE, 0x9898], [0x74F6, 0x9888], [0x98CE, 0x9669], [0x7F3A, 0x5931],
                  [0x7F3A, 0x5C11]]"

definition suggest_words :: "ustring list" where
  "suggest_words = [[0x5EFA, 0x8BAE], [0x63A8, 0x8350], [0x4F18, 0x5316], [0x6539, 0x8FDB]]"

definition compare_words :: "ustring list" where
  "compare_words = [[0x5BF9, 0x6BD4], [0x6BD4, 0x8F83], [0x5DEE, 0x5F02]]"

definition correlation_words :: "ustring list" where
  "correlation_words = [[0x76F8, 0x5173], [0x5173, 0x8054]]"

definition health_words :: "ustring list" where
  "health_words = [[0x5065, 0x5EB7], [0x8BC4, 0x4F30], [0x8BCA, 0x65AD]]"

definition priority_words :: "ustring list" where
  "priority_words = [[0x4F18, 0x5148, 0x7EA7], [0x6392, 0x5E8F], [0x91CD, 0x8981]]"

definition display_words :: "ustring list" where
  "display_words = [[0x663E, 0x793A], [0x67E5, 0x770B], [0x5217, 0x51FA], [0x627E, 0x51FA]]"

definition unachieved_words :: "ustring list" where
  "unachieved_words = [[0x672A, 0x8FBE, 0x6210], [0x672A, 0x5B8C, 0x6210], [0x4E0D, 0x8FBE, 0x6807]]"

definition achieved_words :: "ustring list" where
  "achieved_words = [[0x5DF2, 0x8FBE, 0x6210], [0x5B8C, 0x6210], [0x8FBE, 0x6807]]"

definition sysml_words :: "ustring list" where
  "sysml_words = [ascii ''sysml'', [0x7CFB, 0x7EDF, 0x5EFA, 0x6A21]]"

definition simulink_words :: "ustring list" where
  "simulink_words = [ascii ''simulink'', [0x4EFF, 0x771F]]"

text \<open>The optional first character of the source's pattern gives two words.\<close>

definition no_model_words :: "ustring list" where
  "no_model_words = [[0x975E, 0x6A21, 0x578B], [0x6A21, 0x578B], [0x6CA1, 0x6709, 0x6A21, 0x578B]]"

definition level1_words :: "ustring list" where
  "level1_words = [[0x4E00, 0x7EA7], ascii ''1'' @ [0x7EA7]]"

definition level2_words :: "ustring list" where
  "level2_words = [[0x4E8C, 0x7EA7], ascii ''2'' @ [0x7EA7]]"

definition goal_words :: "ustring list" where
  "goal_words = [[0x76EE, 0x6807]]"

definition kpi_words :: "ustring list" where
  "kpi_words = [[0x6307, 0x6807]]"

definition design_words :: "ustring list" where
  "design_words = [[0x8BBE, 0x8BA1], [0x53C2, 0x6570]]"

definition verify_words :: "ustring list" where
  "verify_words = [[0x9A8C, 0x8BC1], [0x4EFF, 0x771F]]"

definition aliasMap :: "(ustring \<times> string) list" where
  "aliasMap =
    [([0x6298, 0x53E0, 0x65F6, 0x95F4], ''KPI_FoldTime''),
     ([0x7A7A, 0x95F4, 0x6536, 0x76CA], ''KPI_SpaceGain''),
     ([0x7528, 0x6237, 0x4F53, 0x9A8C], ''KPI_UX''),
     ([0x5B89, 0x5168, 0x6027], ''KPI_Safety''),
     (ascii ''nvh'', ''KPI_NVH''),
     ([0x6210, 0x672C], ''KPI_Cost''),
     ([0x53EF, 0x9760, 0x6027], ''KPI_Reliability''),
     ([0x7535, 0x673A, 0x626D, 0x77E9], ''D_MotorTorque''),
     ([0x63A7, 0x5236, 0x7B97, 0x6CD5], ''D_ControlAlgo'')]"

subsection \<open>The patterns that are not plain alternations\<close>

text \<open>\<open>level\s*1\<close> and \<open>level\s*2\<close>: the word, any white space, then the digit \<open>d\<close>.\<close>

fun level_then :: "int \<Rightarrow> ustring \<Rightarrow> bool" where
  "level_then d [] = False"
| "level_then d (c # cs) =
    ((starts_with (c # cs) (ascii ''level'') \<and>
      (case dropWhile is_space (drop 5 (c # cs)) of [] \<Rightarrow> False | x # _ \<Rightarrow> x = d))
     \<or> level_then d cs)"

text \<open>\<open>kpi\<close> under the flag \<open>i\<close>: only the Basic Latin letters fold onto each other.\<close>

definition test_kpi_ci :: "ustring \<Rightarrow> bool" where
  "test_kpi_ci s = js_includes (ascii_toLowerCase s) (ascii ''kpi'')"

text \<open>
  The node-ID pattern \<open>/\b([A-Z_]+\d*)\b/g\<close> of \<open>query.match\<close>: a word boundary, a
  longest run of capitals and underscores, a longest run of digits, a word boundary,
  with backtracking over the two runs (longest first).
\<close>

definition is_word :: "int \<Rightarrow> bool" where
  "is_word c = ((0x30 \<le> c \<and> c \<le> 0x39) \<or> (0x41 \<le> c \<and> c \<le> 0x5A) \<or> c = 0x5F \<or>
                (0x61 \<le> c \<and> c \<le> 0x7A))"

definition is_upper_us :: "int \<Rightarrow> bool" where
  "is_upper_us c = ((0x41 \<le> c \<and> c \<le> 0x5A) \<or> c = 0x5F)"

definition is_digit :: "int \<Rightarrow> bool" where
  "is_digit c = (0x30 \<le> c \<and> c \<le> 0x39)"

fun word_boundary :: "int option \<Rightarrow> int option \<Rightarrow> bool" where
  "word_boundary a b =
     ((case a of None \<Rightarrow> False | Some c \<Rightarrow> is_word c) \<noteq>
      (case b of None \<Rightarrow> False | Some c \<Rightarrow> is_word c))"

text \<open>Is there a boundary after the first \<open>i\<close> code units of \<open>s\<close> (\<open>0 < i \<le> length s\<close>)?\<close>

definition boundary_after :: "ustring \<Rightarrow> nat \<Rightarrow> bool" where
  "boundary_after s i =
     word_boundary (Some (s ! (i - 1))) (if i < length s then Some (s ! i) else None)"

fun try_digits :: "ustring \<Rightarrow> nat \<Rightarrow> nat \<Rightarrow> ustring option" where
  "try_digits s k 0 = (if boundary_after s k then Some (take k s) else None)"
| "try_digits s k (Suc m) =
     (if boundary_after s (k + Suc m) then Some (take (k + Suc m) s) else try_digits s k m)"

fun try_upper :: "ustring \<Rightarrow> nat \<Rightarrow> ustring option" where
  "try_upper s 0 = None"
| "try_upper s (Suc k) =
     (case try_digits s (Suc k) (length (takeWhile is_digit (drop (Suc k) s))) of
        Some m \<Rightarrow> Some m
      | None \<Rightarrow> try_upper s k)"

text \<open>A match starting at the head of \<open>s\<close>, the code unit before it being \<open>p\<close>.\<close>

definition match_here :: "int option \<Rightarrow> ustring \<Rightarrow> ustring option" where
  "match_here p s =
     (if word_boundary p (case s of [] \<Rightarrow> None | c # _ \<Rightarrow> Some c)
      then try_upper s (length (takeWhile is_upper_us s)) else None)"

text \<open>All matches from left to right; the search resumes after a match.\<close>

fun match_all :: "int option \<Rightarrow> ustring \<Rightarrow> ustring list" where
  "match_all p [] = []"
| "match_all p (c # cs) =
     (case match_here p (c # cs) of
        Some m \<Rightarrow> m # match_all (Some ((c # cs) ! (length m - 1))) (drop (length m - 1) cs)
      | None \<Rightarrow> match_all (Some c) cs)"

definition id_prefixes :: "ustring list" where
  "id_prefixes = [ascii ''KPI_'', ascii ''D_'', ascii ''V_'', ascii ''G_'']"

subsection \<open>\<open>parseQuery\<close>\<close>

datatype entity_type = Node_id | Category_entity | Status | Model_type | Level | Metric
  | Relationship

record entity =
  etype :: entity_type
  evalue :: ustring
  econfidence :: rat

datatype query_intent = Query_stats | Query_nodes | Trace_chain | Analyze_impact | Find_issues
  | Suggest | Compare | Correlation | Health_check | Prioritize | Unknown

record parsed_query =
  rawQuery :: ustring
  intent :: query_intent
  entities :: "entity list"
  confidence :: rat

definition classify_intent :: "ustring \<Rightarrow> query_intent \<times> rat" where
  "classify_intent normalizedQuery =
    (if test_any stats_words normalizedQuery then (Query_stats, 9 / 10)
     else if test_any chain_words normalizedQuery then (Trace_chain, 9 / 10)
     else if test_any impact_words normalizedQuery then (Analyze_impact, 9 / 10)
     else if test_any issue_words normalizedQuery then (Find_issues, 8 / 10)
     else if test_any suggest_words normalizedQuery then (Suggest, 8 / 10)
     else if test_any compare_words normalizedQuery then (Compare, 8 / 10)
     else if test_any correlation_words normalizedQuery then (Correlation, 8 / 10)
     else if test_any health_words normalizedQuery then (Health_check, 9 / 10)
     else if test_any priority_words normalizedQuery then (Prioritize, 8 / 10)
     else if test_any display_words normalizedQuery then (Query_nodes, 7 / 10)
     else (Unknown, 5 / 10))"

definition node_id_entities :: "ustring \<Rightarrow> entity list" where
  "node_id_entities query =
     map (\<lambda>i. \<lparr>etype = Node_id, evalue = i, econfidence = 95 / 100\<rparr>)
       (filter (\<lambda>i. list_ex (starts_with i) id_prefixes) (match_all None query))"

definition alias_entities :: "(ustring \<Rightarrow> ustring) \<Rightarrow> ustring \<Rightarrow> entity list" where
  "alias_entities toLowerCase normalizedQuery =
     concat (map (\<lambda>(alias, i).
                    if js_includes normalizedQuery (toLowerCase alias)
                    then [\<lparr>etype = Node_id, evalue = ascii i, econfidence = 9 / 10\<rparr>] else [])
                 aliasMap)"

definition status_entities :: "ustring \<Rightarrow> entity list" where
  "status_entities normalizedQuery =
    (if test_any unachieved_words normalizedQuery
     then [\<lparr>etype = Status, evalue = ascii ''unachieved'', econfidence = 9 / 10\<rparr>]
     else if test_any achieved_words normalizedQuery
     then [\<lparr>etype = Status, evalue = ascii ''achieved'', econfidence = 9 / 10\<rparr>]
     else [])"

definition model_type_entities :: "ustring \<Rightarrow> entity list" where
  "model_type_entities normalizedQuery =
    (if test_any sysml_words normalizedQuery
     then [\<lparr>etype = Model_type, evalue = ascii ''sysml'', econfidence = 95 / 100\<rparr>]
     else if test_any simulink_words normalizedQuery
     then [\<lparr>etype = Model_type, evalue = ascii ''simulink'', econfidence = 95 / 100\<rparr>]
     else if js_includes normalizedQuery (ascii ''modelica'')
     then [\<lparr>etype = Model_type, evalue = ascii ''modelica'', econfidence = 95 / 100\<rparr>]
     else if js_includes normalizedQuery (ascii ''fmu'')
     then [\<lparr>etype = Model_type, evalue = ascii ''fmu'', econfidence = 95 / 100\<rparr>]
     else if test_any no_model_words normalizedQuery
     then [\<lparr>etype = Model_type, evalue = ascii ''none'', econfidence = 9 / 10\<rparr>]
     else [])"

definition level_entities :: "ustring \<Rightarrow> entity list" where
  "level_entities normalizedQuery =
    (if test_any level1_words normalizedQuery \<or> level_then 0x31 normalizedQuery
     then [\<lparr>etype = Level, evalue = ascii ''1'', econfidence = 9 / 10\<rparr>]
     else if test_any level2_words normalizedQuery \<or> level_then 0x32 normalizedQuery
     then [\<lparr>etype = Level, evalue = ascii ''2'', econfidence = 9 / 10\<rparr>]
     else [])"

definition category_entities :: "ustring \<Rightarrow> entity list" where
  "category_entities normalizedQuery =
    (if test_any goal_words normalizedQuery
     then [\<lparr>etype = Category_entity, evalue = ascii ''goal'', econfidence = 9 / 10\<rparr>]
     else if test_any kpi_words normalizedQuery \<or> test_kpi_ci normalizedQuery
     then [\<lparr>etype = Category_entity, evalue = ascii ''kpi'', econfidence = 9 / 10\<rparr>]
     else if test_any design_words normalizedQuery
     then [\<lparr>etype = Category_entity, evalue = ascii ''design'', econfidence = 9 / 10\<rparr>]
     else if test_any verify_words normalizedQuery
     then [\<lparr>etype = Category_entity, evalue = ascii ''verify'', econfidence = 9 / 10\<rparr>]
     else [])"

definition parseQuery :: "(ustring \<Rightarrow> ustring) \<Rightarrow> ustring \<Rightarrow> parsed_query" where
  "parseQuery toLowerCase query =
    (let normalizedQuery = trim (toLowerCase query);
         ic = classify_intent normalizedQuery
     in \<lparr>rawQuery = query,
         intent = fst ic,
         entities = node_id_entities query
                    @ alias_entities toLowerCase normalizedQuery
                    @ status_entities normalizedQuery
                    @ model_type_entities normalizedQuery
                    @ level_entities normalizedQuery
                    @ category_entities normalizedQuery,
         confidence = snd ic\<rparr>)"


section \<open>Notions the properties are stated with\<close>

text \<open>
  The directed graph of an edge list, the same graph with every edge usable in both
  directions, the IDs of the node snapshot and the IDs the edges name.
\<close>

definition arcs :: "edge list \<Rightarrow> (string \<times> string) set" where
  "arcs es = (\<lambda>e. (source e, target e)) ` set es"

definition undirected :: "edge list \<Rightarrow> (string \<times> string) set" where
  "undirected es = arcs es \<union> (arcs es)\<inverse>"

definition node_ids :: "engine \<Rightarrow> string set" where
  "node_ids g = nid ` set (nodes g)"

definition endpoints :: "edge list \<Rightarrow> string set" where
  "endpoints es = source ` set es \<union> target ` set es"

text \<open>The KPI nodes of a snapshot, and the KPI nodes that carry a metrics record.\<close>

definition kpi_nodes :: "node list \<Rightarrow> node list" where
  "kpi_nodes ns = filter (\<lambda>n. category n = Kpi) ns"

definition kpi_nodes_with_metrics :: "node list \<Rightarrow> node list" where
  "kpi_nodes_with_metrics ns = filter (\<lambda>n. category n = Kpi \<and> metrics n \<noteq> None) ns"

text \<open>
  The IDs of the nodes of category \<open>c\<close> that an edge leaves \<open>i\<close> for: the directly
  connected (outgoing) neighbours of a KPI.
\<close>

definition out_neighbours :: "engine \<Rightarrow> category \<Rightarrow> string \<Rightarrow> string set" where
  "out_neighbours g c i =
     {nid n | n. n \<in> set (nodes g) \<and> category n = c \<and> (i, nid n) \<in> arcs (edges g)}"

text \<open>What two KPIs share: the neighbours of category \<open>c\<close> they have in common.\<close>

definition shared :: "engine \<Rightarrow> category \<Rightarrow> node \<Rightarrow> node \<Rightarrow> string set" where
  "shared g c k1 k2 = out_neighbours g c (nid k1) \<inter> out_neighbours g c (nid k2)"

text \<open>The pairs \<open>(xs ! i, xs ! j)\<close> with \<open>i < j\<close>, in the order of the two loops.\<close>

fun pairs_of :: "'a list \<Rightarrow> ('a \<times> 'a) list" where
  "pairs_of [] = []"
| "pairs_of (x # xs) = map (Pair x) xs @ pairs_of xs"

text \<open>
  The rule cascade as the specification describes it: an ordered list of keyword set,
  intent and confidence, evaluated top to bottom, stopping at the first match.
\<close>

definition intent_rules :: "(ustring list \<times> query_intent \<times> rat) list" where
  "intent_rules =
    [(stats_words, Query_stats, 9 / 10), (chain_words, Trace_chain, 9 / 10),
     (impact_words, Analyze_impact, 9 / 10), (issue_words, Find_issues, 8 / 10),
     (suggest_words, Suggest, 8 / 10), (compare_words, Compare, 8 / 10),
     (correlation_words, Correlation, 8 / 10), (health_words, Health_check, 9 / 10),
     (priority_words, Prioritize, 8 / 10), (display_words, Query_nodes, 7 / 10)]"

fun first_match :: "(ustring list \<times> query_intent \<times> rat) list \<Rightarrow> ustring \<Rightarrow> query_intent \<times> rat" where
  "first_match [] s = (Unknown, 5 / 10)"
| "first_match ((ws, i, c) # rules) s = (if test_any ws s then (i, c) else first_match rules s)"

subsection \<open>Invariants of the depth-first searches\<close>

text \<open>
  \<open>closed_at r v V\<close>: every \<open>r\<close>-successor of \<open>v\<close> is in \<open>V\<close>. \<open>dfs_post\<close> is what one call
  of a traversal closure does to the visited set; \<open>dfs_inv\<close> holds between the
  iterations of its loop over the edges.
\<close>

definition closed_at :: "('a \<times> 'a) set \<Rightarrow> 'a \<Rightarrow> 'a set \<Rightarrow> bool" where
  "closed_at r v V \<longleftrightarrow> (\<forall>w. (v, w) \<in> r \<longrightarrow> w \<in> V)"

definition dfs_inv :: "('a \<times> 'a) set \<Rightarrow> 'a set \<Rightarrow> 'a set \<Rightarrow> 'a set \<Rightarrow> bool" where
  "dfs_inv r V0 B V \<longleftrightarrow> V0 \<subseteq> V \<and> (\<forall>v\<in>V - V0. closed_at r v V) \<and> V \<subseteq> B"

definition dfs_post :: "('a \<times> 'a) set \<Rightarrow> 'a \<Rightarrow> 'a set \<Rightarrow> 'a set \<Rightarrow> bool" where
  "dfs_post r x V V' \<longleftrightarrow>
     V \<subseteq> V' \<and> x \<in> V' \<and> (\<forall>v\<in>V' - V. closed_at r v V') \<and> V' \<subseteq> V \<union> r\<^sup>* `` {x}"

text \<open>\<open>traverseDown\<close> is \<open>traverseUp\<close> on the reversed edges.\<close>

definition flip_edge :: "edge \<Rightarrow> edge" where
  "flip_edge e = e\<lparr>source := target e, target := source e\<rparr>"

subsection \<open>Sample graphs and queries\<close>

definition mk_node :: "string \<Rightarrow> category \<Rightarrow> node" where
  "mk_node i c = \<lparr>nid = i, category = c, level = None, label = i, metrics = None\<rparr>"

definition mk_kpi :: "string \<Rightarrow> bool \<Rightarrow> node" where
  "mk_kpi i a = \<lparr>nid = i, category = Kpi, level = Some 1, label = i,
     metrics = Some \<lparr>achieved = a, modelType = MType Simulink, modelCovered = True,
                     achievementRate = Some 100\<rparr>\<rparr>"

definition mk_edge :: "string \<Rightarrow> string \<Rightarrow> string \<Rightarrow> edge" where
  "mk_edge i a b = \<lparr>eid = i, source = a, target = b\<rparr>"

text \<open>Edges \<open>e1: A \<rightarrow> B\<close>, \<open>e2: A \<rightarrow> C\<close>, \<open>e3: B \<rightarrow> C\<close> over the nodes \<open>A\<close>, \<open>B\<close>, \<open>C\<close>.\<close>

definition triangle :: engine where
  "triangle = \<lparr>nodes = [mk_node ''A'' Design, mk_node ''B'' Design, mk_node ''C'' Design],
     edges = [mk_edge ''e1'' ''A'' ''B'', mk_edge ''e2'' ''A'' ''C'', mk_edge ''e3'' ''B'' ''C'']\<rparr>"

text \<open>Edges \<open>A \<rightarrow> B\<close>, \<open>B \<rightarrow> C\<close>.\<close>

definition path3 :: engine where
  "path3 = \<lparr>nodes = [mk_node ''A'' Design, mk_node ''B'' Design, mk_node ''C'' Design],
     edges = [mk_edge ''e1'' ''A'' ''B'', mk_edge ''e2'' ''B'' ''C'']\<rparr>"

text \<open>Edges \<open>X \<rightarrow> Y\<close>, \<open>Y \<rightarrow> X\<close>.\<close>

definition two_cycle :: engine where
  "two_cycle = \<lparr>nodes = [mk_node ''X'' Design, mk_node ''Y'' Design],
     edges = [mk_edge ''e1'' ''X'' ''Y'', mk_edge ''e2'' ''Y'' ''X'']\<rparr>"

text \<open>A dangling edge: \<open>A\<close> is named by the edge \<open>A \<rightarrow> B\<close> but is no node of the snapshot.\<close>

definition dangling :: engine where
  "dangling = \<lparr>nodes = [mk_node ''B'' Design], edges = [mk_edge ''e1'' ''A'' ''B'']\<rparr>"

text \<open>Two KPIs that share the design nodes \<open>D1\<close> and \<open>D2\<close> and no verify node.\<close>

definition shared_design :: engine where
  "shared_design = \<lparr>nodes = [mk_kpi ''K1'' True, mk_kpi ''K2'' False,
                              mk_node ''D1'' Design, mk_node ''D2'' Design],
     edges = [mk_edge ''e1'' ''K1'' ''D1'', mk_edge ''e2'' ''K1'' ''D2'',
              mk_edge ''e3'' ''K2'' ''D1'', mk_edge ''e4'' ''K2'' ''D2'']\<rparr>"

text \<open>The query of the intent-priority test: a stats word, a node ID, a chain word.\<close>

definition stats_chain_query :: ustring where
  "stats_chain_query = [0x7EDF, 0x8BA1] @ ascii '' KPI_FoldTime '' @ [0x7684, 0x94FE, 0x8DEF]"

text \<open>The example query of the engine's own prompt for a chain trace.\<close>

definition chain_query :: ustring where
  "chain_query = ascii ''KPI_FoldTime '' @ [0x7684, 0x94FE, 0x8DEF]"


section \<open>Sets as lists, loops\<close>

lemma set_set_add [simp]: "set (set_add x s) = insert x (set s)"
  by (auto simp: set_add_def)

lemma distinct_set_add [simp]: "distinct s \<Longrightarrow> distinct (set_add x s)"
  by (auto simp: set_add_def)

lemma forEach_total:
  assumes "\<And>x s. x \<in> set xs \<Longrightarrow> I s \<Longrightarrow> \<exists>s'. f x s = Some s' \<and> I s'" and "I s"
  shows "\<exists>s'. forEach xs f s = Some s' \<and> I s'"
  using assms
proof (induction xs arbitrary: s)
  case Nil
  then show ?case by simp
next
  case (Cons x xs)
  from Cons.prems obtain t where t: "f x s = Some t" "I t" by (meson list.set_intros(1))
  have "\<exists>s'. forEach xs f t = Some s' \<and> I s'"
    by (rule Cons.IH) (use Cons.prems t in auto)
  with t show ?case by simp
qed

lemma forEach_post:
  assumes "forEach xs f s = Some s'" and "I s"
    and "\<And>x t t'. x \<in> set xs \<Longrightarrow> I t \<Longrightarrow> f x t = Some t' \<Longrightarrow>
            I t' \<and> Q x t' \<and> (\<forall>y. Q y t \<longrightarrow> Q y t')"
  shows "I s' \<and> (\<forall>x\<in>set xs. Q x s') \<and> (\<forall>y. Q y s \<longrightarrow> Q y s')"
  using assms
proof (induction xs arbitrary: s)
  case Nil
  then show ?case by simp
next
  case (Cons x xs)
  from Cons.prems(1) obtain t where t: "f x s = Some t" "forEach xs f t = Some s'"
    by (auto split: option.splits)
  have st: "I t \<and> Q x t \<and> (\<forall>y. Q y s \<longrightarrow> Q y t)"
    using Cons.prems(3)[of x s t] Cons.prems(2) t(1) by simp
  have "I s' \<and> (\<forall>x\<in>set xs. Q x s') \<and> (\<forall>y. Q y t \<longrightarrow> Q y s')"
    by (rule Cons.IH[OF t(2)]) (use st Cons.prems(3) in auto)
  with st show ?case by auto
qed

lemma forEach_inv:
  assumes "forEach xs f s = Some s'" and "I s"
    and "\<And>x t t'. x \<in> set xs \<Longrightarrow> I t \<Longrightarrow> f x t = Some t' \<Longrightarrow> I t'"
  shows "I s'"
  using forEach_post[where Q = "\<lambda>_ _. True", OF assms(1), of I] assms(2,3) by blast

lemma forEach_mono:
  assumes "forEach xs f s = Some r"
    and "\<And>x t t'. x \<in> set xs \<Longrightarrow> f x t = Some t' \<Longrightarrow> g x t = Some t'"
  shows "forEach xs g s = Some r"
  using assms
proof (induction xs arbitrary: s)
  case Nil
  then show ?case by simp
next
  case (Cons x xs)
  from Cons.prems(1) obtain t where t: "f x s = Some t" "forEach xs f t = Some r"
    by (auto split: option.splits)
  have "g x s = Some t" using Cons.prems(2) t(1) by simp
  moreover have "forEach xs g t = Some r" by (rule Cons.IH[OF t(2)]) (use Cons.prems(2) in auto)
  ultimately show ?case by simp
qed

lemma forEach_map: "forEach (map h xs) f s = forEach xs (\<lambda>x. f (h x)) s"
  by (induction xs arbitrary: s) (auto split: option.splits)

lemma forEach_skip:
  assumes "\<And>x t. x \<in> set xs \<Longrightarrow> f x t = Some t"
  shows "forEach xs f s = Some s"
  using assms by (induction xs) auto

section \<open>Every traversal returns\<close>

lemma card_diff_visit:
  assumes "finite U" "x \<in> U" "x \<notin> V" "card (U - V) < Suc n"
  shows "card (U - insert x V) < n"
proof -
  have "U - insert x V = (U - V) - {x}" by auto
  moreover have "x \<in> U - V" using assms by simp
  moreover have "finite (U - V)" using assms by simp
  ultimately have "card (U - insert x V) < card (U - V)"
    by (metis card_Diff1_less)
  with assms(4) show ?thesis by simp
qed

lemma card_diff_mono:
  assumes "finite U" "V \<subseteq> W" "card (U - V) < n"
  shows "card (U - W) < n"
proof -
  have "U - W \<subseteq> U - V" using assms by auto
  then have "card (U - W) \<le> card (U - V)" using assms(1) by (simp add: card_mono)
  with assms(3) show ?thesis by simp
qed

lemma finite_endpoints [simp]: "finite (endpoints es)"
  by (simp add: endpoints_def)

lemma card_endpoints: "card (insert x (endpoints es)) < fuel_of es"
proof -
  have "card (source ` set es) \<le> length es" "card (target ` set es) \<le> length es"
    by (meson card_image_le card_length le_trans List.finite_set)+
  then have "card (endpoints es) \<le> 2 * length es"
    unfolding endpoints_def using card_Un_le[of "source ` set es" "target ` set es"] by linarith
  moreover have "card (insert x (endpoints es)) \<le> Suc (card (endpoints es))"
    by (simp add: card_insert_if)
  ultimately show ?thesis by (simp add: fuel_of_def)
qed

lemma traverse_terminates:
  assumes "finite U" "endpoints es \<subseteq> U"
  shows "x \<in> U \<Longrightarrow> card (U - set (visited st)) < n \<Longrightarrow>
         \<exists>st'. traverse n es x st = Some st' \<and> set (visited st) \<subseteq> set (visited st')"
proof (induction n arbitrary: x st)
  case 0
  then show ?case by simp
next
  case (Suc n)
  show ?case
  proof (cases "x \<in> set (visited st)")
    case True
    then show ?thesis by simp
  next
    case False
    let ?st1 = "st\<lparr>visited := set_add x (visited st),
                    relatedNodes := set_add x (relatedNodes st)\<rparr>"
    let ?I = "\<lambda>s::tstate. set (visited ?st1) \<subseteq> set (visited s)"
    let ?f = "\<lambda>e s. if target e = x \<and> source e \<notin> set (visited s)
                 then traverse n es (source e)
                        (s\<lparr>relatedEdges := set_add (eid e) (relatedEdges s),
                           relatedNodes := set_add (source e) (relatedNodes s)\<rparr>)
                 else Some s"
    let ?g = "\<lambda>e s. if source e = x \<and> target e \<notin> set (visited s)
                     then traverse n es (target e)
                            (s\<lparr>relatedEdges := set_add (eid e) (relatedEdges s),
                               relatedNodes := set_add (target e) (relatedNodes s)\<rparr>)
                     else Some s"
    have c1: "card (U - set (visited ?st1)) < n"
      using card_diff_visit[OF assms(1) Suc.prems(1) False Suc.prems(2)] by simp
    have rec: "\<exists>t. traverse n es y (s\<lparr>relatedEdges := re, relatedNodes := rn\<rparr>) = Some t \<and> ?I t"
      if "?I s" "y \<in> U" for s :: tstate and y re rn
    proof -
      have "card (U - set (visited (s\<lparr>relatedEdges := re, relatedNodes := rn\<rparr>))) < n"
        using card_diff_mono[OF assms(1) _ c1, of "set (visited s)"] that(1) by simp
      from Suc.IH[OF that(2) this] that(1) show ?thesis by auto
    qed
    have src: "source e \<in> U" and tgt: "target e \<in> U" if "e \<in> set es" for e
      using that assms(2) by (auto simp: endpoints_def)
    have "\<exists>s'. forEach es ?f ?st1 = Some s' \<and> ?I s'"
    proof (rule forEach_total)
      fix e and s :: tstate assume "e \<in> set es" "?I s"
      then show "\<exists>s'. ?f e s = Some s' \<and> ?I s'"
        using rec[of s "source e"] src by auto
    qed simp
    then obtain st2 where st2: "forEach es ?f ?st1 = Some st2" "?I st2" by blast
    have "\<exists>s'. forEach es ?g st2 = Some s' \<and> ?I s'"
    proof (rule forEach_total)
      fix e and s :: tstate assume "e \<in> set es" "?I s"
      then show "\<exists>s'. ?g e s = Some s' \<and> ?I s'"
        using rec[of s "target e"] tgt by auto
    qed (rule st2(2))
    then obtain st3 where st3: "forEach es ?g st2 = Some st3" "?I st3" by blast
    from False st2 st3 show ?thesis by auto
  qed
qed

lemma traverse_fuel_of:
  assumes "fuel_of es \<le> n"
  shows "\<exists>st'. traverse n es x st = Some st'"
proof -
  let ?U = "insert x (endpoints es)"
  have "card (?U - set (visited st)) \<le> card ?U"
    by (rule card_mono) auto
  then have "card (?U - set (visited st)) < n"
    using card_endpoints[of x es] assms by linarith
  from traverse_terminates[of ?U es x st n, OF _ _ _ this] show ?thesis by auto
qed

lemma traverse_fuel_mono:
  "traverse n es x st = Some r \<Longrightarrow> n \<le> m \<Longrightarrow> traverse m es x st = Some r"
proof (induction n arbitrary: m x st r)
  case 0
  then show ?case by simp
next
  case (Suc n)
  then obtain k where m: "m = Suc k" "n \<le> k" by (cases m) auto
  show ?case
  proof (cases "x \<in> set (visited st)")
    case True
    with Suc.prems m show ?thesis by simp
  next
    case False
    let ?st1 = "st\<lparr>visited := set_add x (visited st),
                    relatedNodes := set_add x (relatedNodes st)\<rparr>"
    let ?f = "\<lambda>j e (s::tstate). if target e = x \<and> source e \<notin> set (visited s)
                 then traverse j es (source e)
                        (s\<lparr>relatedEdges := set_add (eid e) (relatedEdges s),
                           relatedNodes := set_add (source e) (relatedNodes s)\<rparr>)
                 else Some s"
    let ?g = "\<lambda>j e (s::tstate). if source e = x \<and> target e \<notin> set (visited s)
                     then traverse j es (target e)
                            (s\<lparr>relatedEdges := set_add (eid e) (relatedEdges s),
                               relatedNodes := set_add (target e) (relatedNodes s)\<rparr>)
                     else Some s"
    from Suc.prems(1) False obtain st2 where
      st2: "forEach es (?f n) ?st1 = Some st2" "forEach es (?g n) st2 = Some r"
      by (auto split: option.splits)
    have "forEach es (?f k) ?st1 = Some st2"
      by (rule forEach_mono[OF st2(1)]) (auto split: if_splits intro: Suc.IH[OF _ m(2)])
    moreover have "forEach es (?g k) st2 = Some r"
      by (rule forEach_mono[OF st2(2)]) (auto split: if_splits intro: Suc.IH[OF _ m(2)])
    ultimately show ?thesis using False m by simp
  qed
qed

lemma traverseUp_terminates:
  assumes "finite U" "endpoints es \<subseteq> U"
  shows "x \<in> U \<Longrightarrow> card (U - set (visited st)) < n \<Longrightarrow>
         \<exists>st'. traverseUp n es x st = Some st' \<and> set (visited st) \<subseteq> set (visited st')"
proof (induction n arbitrary: x st)
  case 0
  then show ?case by simp
next
  case (Suc n)
  show ?case
  proof (cases "x \<in> set (visited st)")
    case True
    then show ?thesis by simp
  next
    case False
    define st1 where "st1 = st\<lparr>visited := set_add x (visited st),
                    relatedNodes := set_add x (relatedNodes st)\<rparr>"
    define f where "f = (\<lambda>(e::edge) (s::tstate). if target e = x
                 then traverseUp n es (source e)
                        (s\<lparr>relatedEdges := set_add (eid e) (relatedEdges s),
                           relatedNodes := set_add (source e) (relatedNodes s)\<rparr>)
                 else Some s)"
    define I where "I = (\<lambda>s::tstate. set (visited st1) \<subseteq> set (visited s))"
    have v1: "set (visited st1) = insert x (set (visited st))" by (simp add: st1_def)
    have c1: "card (U - set (visited st1)) < n"
      unfolding v1 by (rule card_diff_visit[OF assms(1) Suc.prems(1) False Suc.prems(2)])
    have step: "\<exists>s'. f e s = Some s' \<and> I s'" if "e \<in> set es" "I s" for e and s :: tstate
    proof (cases "target e = x")
      case True
      define s0 where "s0 = s\<lparr>relatedEdges := set_add (eid e) (relatedEdges s),
                           relatedNodes := set_add (source e) (relatedNodes s)\<rparr>"
      have "source e \<in> U" using that(1) assms(2) by (auto simp: endpoints_def)
      moreover have "card (U - set (visited s0)) < n"
        using card_diff_mono[OF assms(1) _ c1, of "set (visited s)"] that(2)
        by (simp add: I_def s0_def)
      ultimately obtain t where t: "traverseUp n es (source e) s0 = Some t"
        "set (visited s0) \<subseteq> set (visited t)" using Suc.IH by blast
      have "I t" using t(2) that(2) by (auto simp: I_def s0_def)
      with t(1) True show ?thesis by (simp add: f_def s0_def)
    next
      case False
      with that(2) show ?thesis by (simp add: f_def)
    qed
    have "I st1" by (simp add: I_def)
    with step have "\<exists>s'. forEach es f st1 = Some s' \<and> I s'" by (rule forEach_total)
    then obtain st' where "forEach es f st1 = Some st'" "I st'" by blast
    with False show ?thesis by (auto simp: f_def st1_def I_def)
  qed
qed

lemma traverseUp_fuel_of:
  assumes "fuel_of es \<le> n"
  shows "\<exists>st'. traverseUp n es x st = Some st'"
proof -
  let ?U = "insert x (endpoints es)"
  have "card (?U - set (visited st)) \<le> card ?U"
    by (rule card_mono) auto
  then have "card (?U - set (visited st)) < n"
    using card_endpoints[of x es] assms by linarith
  from traverseUp_terminates[of ?U es x st n, OF _ _ _ this] show ?thesis by auto
qed

lemma traverseUp_fuel_mono:
  "traverseUp n es x st = Some r \<Longrightarrow> n \<le> m \<Longrightarrow> traverseUp m es x st = Some r"
proof (induction n arbitrary: m x st r)
  case 0
  then show ?case by simp
next
  case (Suc n)
  then obtain k where m: "m = Suc k" "n \<le> k" by (cases m) auto
  show ?case
  proof (cases "x \<in> set (visited st)")
    case True
    with Suc.prems m show ?thesis by simp
  next
    case False
    define st1 where "st1 = st\<lparr>visited := set_add x (visited st),
                    relatedNodes := set_add x (relatedNodes st)\<rparr>"
    define f where "f = (\<lambda>j (e::edge) (s::tstate). if target e = x
                 then traverseUp j es (source e)
                        (s\<lparr>relatedEdges := set_add (eid e) (relatedEdges s),
                           relatedNodes := set_add (source e) (relatedNodes s)\<rparr>)
                 else Some s)"
    from Suc.prems(1) False have a: "forEach es (f n) st1 = Some r"
      by (simp add: f_def st1_def)
    have "forEach es (f k) st1 = Some r"
    proof (rule forEach_mono[OF a])
      fix e and t t' :: tstate
      assume "f n e t = Some t'"
      then show "f k e t = Some t'"
        unfolding f_def using Suc.IH[OF _ m(2)] by (simp split: if_splits)
    qed
    then show ?thesis using False m by (simp add: f_def st1_def)
  qed
qed

lemma flip_edge_simps [simp]:
  "source (flip_edge e) = target e" "target (flip_edge e) = source e" "eid (flip_edge e) = eid e"
  by (simp_all add: flip_edge_def)

lemma traverseDown_flip: "traverseDown n es x st = traverseUp n (map flip_edge es) x st"
proof (induction n arbitrary: x st)
  case 0
  show ?case by simp
next
  case (Suc n)
  have IH: "traverseDown n es = traverseUp n (map flip_edge es)"
    by (intro ext) (rule Suc.IH)
  show ?case by (simp add: IH forEach_map cong: if_cong)
qed

lemma arcs_flip: "arcs (map flip_edge es) = (arcs es)\<inverse>"
  by (auto simp: arcs_def flip_edge_def image_iff)

lemma fuel_of_flip: "fuel_of (map flip_edge es) = fuel_of es"
  by (simp add: fuel_of_def)


section \<open>What the traversals visit\<close>

lemma closed_at_mono: "closed_at r v V \<Longrightarrow> V \<subseteq> W \<Longrightarrow> closed_at r v W"
  by (auto simp: closed_at_def)

lemma undirected_src: "e \<in> set es \<Longrightarrow> (target e, source e) \<in> undirected es"
  and undirected_tgt: "e \<in> set es \<Longrightarrow> (source e, target e) \<in> undirected es"
  by (auto simp: undirected_def arcs_def)

lemma converse_arc: "e \<in> set es \<Longrightarrow> (target e, source e) \<in> (arcs es)\<inverse>"
  by (auto simp: arcs_def)

lemma reach_step: "(a, b) \<in> r \<Longrightarrow> r\<^sup>* `` {b} \<subseteq> r\<^sup>* `` {a}"
  by (auto intro: converse_rtrancl_into_rtrancl)

lemma dfs_inv_start: "V0 \<subseteq> B \<Longrightarrow> dfs_inv r V0 B V0"
  by (simp add: dfs_inv_def)

lemma dfs_inv_call:
  assumes "dfs_inv r V0 B V" "V \<subseteq> V'" "\<forall>v\<in>V' - V. closed_at r v V'" "V' \<subseteq> V \<union> R" "R \<subseteq> B"
  shows "dfs_inv r V0 B V'"
  unfolding dfs_inv_def
proof (intro conjI ballI)
  show "V0 \<subseteq> V'" using assms(1,2) by (auto simp: dfs_inv_def)
  show "V' \<subseteq> B" using assms(1,4,5) by (auto simp: dfs_inv_def)
  fix v assume v: "v \<in> V' - V0"
  show "closed_at r v V'"
  proof (cases "v \<in> V")
    case True
    with v assms(1) have "closed_at r v V" by (simp add: dfs_inv_def)
    then show ?thesis using assms(2) by (rule closed_at_mono)
  next
    case False
    with v assms(3) show ?thesis by simp
  qed
qed

lemma dfs_post_visited: "x \<in> V \<Longrightarrow> dfs_post r x V V"
  by (simp add: dfs_post_def)

lemma dfs_inv_post:
  assumes "dfs_inv r V0 B V" "dfs_post r y V V'" "r\<^sup>* `` {y} \<subseteq> B"
  shows "dfs_inv r V0 B V'" "y \<in> V'" "V \<subseteq> V'"
proof -
  show "dfs_inv r V0 B V'"
    by (rule dfs_inv_call[OF assms(1) _ _ _ assms(3)]) (use assms(2) in \<open>simp_all add: dfs_post_def\<close>)
  show "y \<in> V'" "V \<subseteq> V'" using assms(2) by (simp_all add: dfs_post_def)
qed

lemma dfs_post_finish:
  assumes "x \<notin> V" "dfs_inv r (insert x V) (V \<union> r\<^sup>* `` {x}) V'" "closed_at r x V'"
  shows "dfs_post r x V V'"
  unfolding dfs_post_def
proof (intro conjI ballI)
  show "V \<subseteq> V'" "x \<in> V'" "V' \<subseteq> V \<union> r\<^sup>* `` {x}"
    using assms(2) by (auto simp: dfs_inv_def)
  fix v assume v: "v \<in> V' - V"
  show "closed_at r v V'"
  proof (cases "v = x")
    case True
    then show ?thesis using assms(3) by simp
  next
    case False
    with v have "v \<in> V' - insert x V" by simp
    with assms(2) show ?thesis by (simp add: dfs_inv_def)
  qed
qed

lemma closed_reach:
  assumes "\<forall>v\<in>V. closed_at r v V" "(a, b) \<in> r\<^sup>*" "a \<in> V"
  shows "b \<in> V"
  using assms(2,3)
proof (induction rule: rtrancl_induct)
  case base
  then show ?case by simp
next
  case (step y z)
  then have "y \<in> V" by simp
  with assms(1) have "closed_at r y V" by simp
  with step.hyps(2) show ?case by (simp add: closed_at_def)
qed

lemma closed_set_reach:
  assumes "\<forall>v\<in>V. closed_at r v V" "A \<subseteq> V" "V \<subseteq> r\<^sup>* `` A"
  shows "V = r\<^sup>* `` A"
proof
  show "V \<subseteq> r\<^sup>* `` A" by (rule assms(3))
  show "r\<^sup>* `` A \<subseteq> V" using closed_reach[OF assms(1)] assms(2) by auto
qed

lemma dfs_post_empty:
  assumes "dfs_post r x {} V"
  shows "V = r\<^sup>* `` {x}"
proof (rule closed_set_reach)
  show "\<forall>v\<in>V. closed_at r v V" "{x} \<subseteq> V" "V \<subseteq> r\<^sup>* `` {x}"
    using assms by (simp_all add: dfs_post_def)
qed

lemma dfs_top_step:
  assumes "\<forall>v\<in>V. closed_at r v V" "V \<subseteq> r\<^sup>* `` A" "dfs_post r x V V'" "x \<in> A"
  shows "\<forall>v\<in>V'. closed_at r v V'" "V' \<subseteq> r\<^sup>* `` A" "V \<subseteq> V'" "x \<in> V'"
proof -
  from assms(3) have sub: "V \<subseteq> V'" and x: "x \<in> V'"
    and new: "\<forall>v\<in>V' - V. closed_at r v V'" and bound: "V' \<subseteq> V \<union> r\<^sup>* `` {x}"
    by (simp_all add: dfs_post_def)
  show "V \<subseteq> V'" "x \<in> V'" by (rule sub, rule x)
  show "\<forall>v\<in>V'. closed_at r v V'"
  proof
    fix v assume "v \<in> V'"
    show "closed_at r v V'"
    proof (cases "v \<in> V")
      case True
      with assms(1) have "closed_at r v V" by simp
      then show ?thesis using sub by (rule closed_at_mono)
    next
      case False
      with \<open>v \<in> V'\<close> new show ?thesis by simp
    qed
  qed
  have "r\<^sup>* `` {x} \<subseteq> r\<^sup>* `` A" using assms(4) by auto
  with bound assms(2) show "V' \<subseteq> r\<^sup>* `` A" by blast
qed

lemma traverse_spec:
  "traverse n es x st = Some st' \<Longrightarrow>
     dfs_post (undirected es) x (set (visited st)) (set (visited st'))"
proof (induction n arbitrary: x st st')
  case 0
  then show ?case by simp
next
  case (Suc n)
  show ?case
  proof (cases "x \<in> set (visited st)")
    case True
    with Suc.prems have "st' = st" by simp
    with True show ?thesis by (simp add: dfs_post_visited)
  next
    case False
    define st1 where "st1 = st\<lparr>visited := set_add x (visited st),
                    relatedNodes := set_add x (relatedNodes st)\<rparr>"
    define f where "f = (\<lambda>(e::edge) (s::tstate). if target e = x \<and> source e \<notin> set (visited s)
                 then traverse n es (source e)
                        (s\<lparr>relatedEdges := set_add (eid e) (relatedEdges s),
                           relatedNodes := set_add (source e) (relatedNodes s)\<rparr>)
                 else Some s)"
    define g where "g = (\<lambda>(e::edge) (s::tstate). if source e = x \<and> target e \<notin> set (visited s)
                     then traverse n es (target e)
                            (s\<lparr>relatedEdges := set_add (eid e) (relatedEdges s),
                               relatedNodes := set_add (target e) (relatedNodes s)\<rparr>)
                     else Some s)"
    define r where "r = undirected es"
    define B where "B = set (visited st) \<union> r\<^sup>* `` {x}"
    define I where "I = (\<lambda>s::tstate. dfs_inv r (insert x (set (visited st))) B (set (visited s)))"
    define Q1 where "Q1 = (\<lambda>(e::edge) (s::tstate). target e = x \<longrightarrow> source e \<in> set (visited s))"
    define Q2 where "Q2 = (\<lambda>(e::edge) (s::tstate). source e = x \<longrightarrow> target e \<in> set (visited s))"
    from Suc.prems False obtain st2 where
      st2: "forEach es f st1 = Some st2" "forEach es g st2 = Some st'"
      unfolding f_def g_def st1_def by (auto split: option.splits)
    have v1: "set (visited st1) = insert x (set (visited st))" by (simp add: st1_def)
    have I1: "I st1" unfolding I_def v1 by (rule dfs_inv_start) (auto simp: B_def)
    have call: "I t'" "y \<in> set (visited t')" "set (visited t) \<subseteq> set (visited t')"
      if "I t" "(x, y) \<in> r"
        "traverse n es y (t\<lparr>relatedEdges := re, relatedNodes := rn\<rparr>) = Some t'"
      for t t' :: tstate and y re rn
    proof -
      have p: "dfs_post r y (set (visited t)) (set (visited t'))"
        using Suc.IH[OF that(3)] by (simp add: r_def)
      have "r\<^sup>* `` {y} \<subseteq> r\<^sup>* `` {x}" using that(2) by (rule reach_step)
      then have b: "r\<^sup>* `` {y} \<subseteq> B" unfolding B_def by blast
      from dfs_inv_post[OF that(1)[unfolded I_def] p b]
      show "I t'" "y \<in> set (visited t')" "set (visited t) \<subseteq> set (visited t')"
        unfolding I_def by simp_all
    qed
    have step1: "I t' \<and> Q1 e t' \<and> (\<forall>y. Q1 y t \<longrightarrow> Q1 y t')"
      if e: "e \<in> set es" and t: "I t" and ft: "f e t = Some t'" for e and t t' :: tstate
    proof (cases "target e = x \<and> source e \<notin> set (visited t)")
      case True
      with ft have tr: "traverse n es (source e)
                      (t\<lparr>relatedEdges := set_add (eid e) (relatedEdges t),
                         relatedNodes := set_add (source e) (relatedNodes t)\<rparr>) = Some t'"
        by (simp add: f_def)
      have u: "(x, source e) \<in> r" using undirected_src[OF e] True by (simp add: r_def)
      from call[OF t u tr] show ?thesis unfolding Q1_def by blast
    next
      case False
      with ft have "t' = t" by (auto simp: f_def)
      with False t show ?thesis unfolding Q1_def by blast
    qed
    have P1: "I st2 \<and> (\<forall>e\<in>set es. Q1 e st2) \<and> (\<forall>y. Q1 y st1 \<longrightarrow> Q1 y st2)"
      by (rule forEach_post[where I = I and Q = Q1, OF st2(1) I1 step1])
    have step2: "I t' \<and> Q2 e t' \<and> (\<forall>y. Q2 y t \<longrightarrow> Q2 y t') \<and> (\<forall>y. Q1 y t \<longrightarrow> Q1 y t')"
      if e: "e \<in> set es" and t: "I t" and ft: "g e t = Some t'" for e and t t' :: tstate
    proof (cases "source e = x \<and> target e \<notin> set (visited t)")
      case True
      with ft have tr: "traverse n es (target e)
                      (t\<lparr>relatedEdges := set_add (eid e) (relatedEdges t),
                         relatedNodes := set_add (target e) (relatedNodes t)\<rparr>) = Some t'"
        by (simp add: g_def)
      have u: "(x, target e) \<in> r" using undirected_tgt[OF e] True by (simp add: r_def)
      from call[OF t u tr] show ?thesis unfolding Q1_def Q2_def by blast
    next
      case False
      with ft have "t' = t" by (auto simp: g_def)
      with False t show ?thesis unfolding Q2_def by blast
    qed
    have I2: "I st2" using P1 by (rule conjunct1)
    have P2: "I st' \<and> (\<forall>e\<in>set es. Q2 e st') \<and> (\<forall>y. Q2 y st2 \<longrightarrow> Q2 y st')"
      by (rule forEach_post[where I = I and Q = Q2, OF st2(2) I2]) (use step2 in blast)
    have "(\<forall>y. Q1 y st2 \<longrightarrow> Q1 y st')"
      by (rule forEach_inv[where I = "\<lambda>s. I s \<and> (\<forall>y. Q1 y st2 \<longrightarrow> Q1 y s)", OF st2(2), THEN conjunct2])
        (use I2 step2 in blast)+
    with P1 have q1: "\<forall>e\<in>set es. Q1 e st'" by blast
    have q2: "\<forall>e\<in>set es. Q2 e st'" using P2 by blast
    have cx: "closed_at r x (set (visited st'))"
      unfolding closed_at_def
    proof (intro allI impI)
      fix w assume "(x, w) \<in> r"
      then obtain e where e: "e \<in> set es"
        and "(target e = x \<and> source e = w) \<or> (source e = x \<and> target e = w)"
        unfolding r_def undirected_def arcs_def by auto
      with q1 q2 show "w \<in> set (visited st')" unfolding Q1_def Q2_def by blast
    qed
    have "I st'" using P2 by (rule conjunct1)
    then have "dfs_inv r (insert x (set (visited st))) (set (visited st) \<union> r\<^sup>* `` {x})
                 (set (visited st'))"
      by (simp only: I_def B_def)
    with False have "dfs_post r x (set (visited st)) (set (visited st'))"
      using cx by (rule dfs_post_finish)
    then show ?thesis by (simp only: r_def)
  qed
qed

lemma traverse_nodes:
  "traverse n es x st = Some st' \<Longrightarrow> set (visited st) \<subseteq> set (relatedNodes st) \<Longrightarrow>
   set (relatedNodes st) \<subseteq> insert x (set (visited st)) \<Longrightarrow>
   set (relatedNodes st') = set (visited st')"
proof (induction n arbitrary: x st st')
  case 0
  then show ?case by simp
next
  case (Suc n)
  show ?case
  proof (cases "x \<in> set (visited st)")
    case True
    with Suc.prems show ?thesis by auto
  next
    case False
    define st1 where "st1 = st\<lparr>visited := set_add x (visited st),
                    relatedNodes := set_add x (relatedNodes st)\<rparr>"
    define f where "f = (\<lambda>(e::edge) (s::tstate). if target e = x \<and> source e \<notin> set (visited s)
                 then traverse n es (source e)
                        (s\<lparr>relatedEdges := set_add (eid e) (relatedEdges s),
                           relatedNodes := set_add (source e) (relatedNodes s)\<rparr>)
                 else Some s)"
    define g where "g = (\<lambda>(e::edge) (s::tstate). if source e = x \<and> target e \<notin> set (visited s)
                     then traverse n es (target e)
                            (s\<lparr>relatedEdges := set_add (eid e) (relatedEdges s),
                               relatedNodes := set_add (target e) (relatedNodes s)\<rparr>)
                     else Some s)"
    define I where "I = (\<lambda>s::tstate. set (relatedNodes s) = set (visited s))"
    from Suc.prems(1) False obtain st2 where
      st2: "forEach es f st1 = Some st2" "forEach es g st2 = Some st'"
      unfolding f_def g_def st1_def by (auto split: option.splits)
    have I1: "I st1" using Suc.prems(2,3) by (auto simp: I_def st1_def)
    have call: "I t'"
      if "I t" "traverse n es y (t\<lparr>relatedEdges := re,
             relatedNodes := set_add y (relatedNodes t)\<rparr>) = Some t'"
      for t t' :: tstate and y re
      using Suc.IH[OF that(2)] that(1) by (auto simp: I_def)
    have step1: "I t'" if "e \<in> set es" "I t" "f e t = Some t'" for e and t t' :: tstate
      using that call[of t "source e" _ t'] by (auto simp: f_def split: if_splits)
    have step2: "I t'" if "e \<in> set es" "I t" "g e t = Some t'" for e and t t' :: tstate
      using that call[of t "target e" _ t'] by (auto simp: g_def split: if_splits)
    have "I st2" by (rule forEach_inv[where I = I, OF st2(1) I1 step1])
    then have "I st'" by (rule forEach_inv[where I = I, OF st2(2) _ step2])
    then show ?thesis by (simp add: I_def)
  qed
qed

lemma traverseUp_spec:
  "traverseUp n es x st = Some st' \<Longrightarrow>
     dfs_post ((arcs es)\<inverse>) x (set (visited st)) (set (visited st'))"
proof (induction n arbitrary: x st st')
  case 0
  then show ?case by simp
next
  case (Suc n)
  show ?case
  proof (cases "x \<in> set (visited st)")
    case True
    with Suc.prems have "st' = st" by simp
    with True show ?thesis by (simp add: dfs_post_visited)
  next
    case False
    define st1 where "st1 = st\<lparr>visited := set_add x (visited st),
                    relatedNodes := set_add x (relatedNodes st)\<rparr>"
    define f where "f = (\<lambda>(e::edge) (s::tstate). if target e = x
                 then traverseUp n es (source e)
                        (s\<lparr>relatedEdges := set_add (eid e) (relatedEdges s),
                           relatedNodes := set_add (source e) (relatedNodes s)\<rparr>)
                 else Some s)"
    define r where "r = (arcs es)\<inverse>"
    define B where "B = set (visited st) \<union> r\<^sup>* `` {x}"
    define I where "I = (\<lambda>s::tstate. dfs_inv r (insert x (set (visited st))) B (set (visited s)))"
    define Q where "Q = (\<lambda>(e::edge) (s::tstate). target e = x \<longrightarrow> source e \<in> set (visited s))"
    from Suc.prems False have st': "forEach es f st1 = Some st'"
      by (simp add: f_def st1_def)
    have v1: "set (visited st1) = insert x (set (visited st))" by (simp add: st1_def)
    have I1: "I st1" unfolding I_def v1 by (rule dfs_inv_start) (auto simp: B_def)
    have step: "I t' \<and> Q e t' \<and> (\<forall>y. Q y t \<longrightarrow> Q y t')"
      if e: "e \<in> set es" and t: "I t" and ft: "f e t = Some t'" for e and t t' :: tstate
    proof (cases "target e = x")
      case True
      define t0 where "t0 = t\<lparr>relatedEdges := set_add (eid e) (relatedEdges t),
                         relatedNodes := set_add (source e) (relatedNodes t)\<rparr>"
      from ft True have tr: "traverseUp n es (source e) t0 = Some t'"
        by (simp add: f_def t0_def)
      have p: "dfs_post r (source e) (set (visited t)) (set (visited t'))"
        using Suc.IH[OF tr] by (simp add: r_def t0_def)
      have u: "(x, source e) \<in> r" using converse_arc[OF e] True by (simp add: r_def)
      have "r\<^sup>* `` {source e} \<subseteq> r\<^sup>* `` {x}" using u by (rule reach_step)
      then have b: "r\<^sup>* `` {source e} \<subseteq> B" unfolding B_def by blast
      note c = dfs_inv_post[OF t[unfolded I_def] p b]
      have "I t'" using c(1) by (simp add: I_def)
      moreover have "Q e t'" using c(2) by (simp add: Q_def)
      moreover have "\<forall>y. Q y t \<longrightarrow> Q y t'" using c(3) unfolding Q_def by blast
      ultimately show ?thesis by blast
    next
      case False
      with ft have "t' = t" by (auto simp: f_def)
      with False t show ?thesis unfolding Q_def by blast
    qed
    note post = forEach_post[where I = I and Q = Q, OF st' I1 step]
    have q: "\<forall>e\<in>set es. Q e st'" by (rule post[THEN conjunct2, THEN conjunct1])
    have cx: "closed_at r x (set (visited st'))"
      unfolding closed_at_def
    proof (intro allI impI)
      fix w assume "(x, w) \<in> r"
      then obtain e where "e \<in> set es" "target e = x" "source e = w"
        unfolding r_def arcs_def by auto
      with q show "w \<in> set (visited st')" unfolding Q_def by blast
    qed
    have "I st'" by (rule post[THEN conjunct1])
    then have "dfs_inv r (insert x (set (visited st))) (set (visited st) \<union> r\<^sup>* `` {x})
                 (set (visited st'))"
      by (simp only: I_def B_def)
    with False have "dfs_post r x (set (visited st)) (set (visited st'))"
      using cx by (rule dfs_post_finish)
    then show ?thesis by (simp only: r_def)
  qed
qed

lemma traverseUp_nodes:
  "traverseUp n es x st = Some st' \<Longrightarrow> set (visited st) \<subseteq> set (relatedNodes st) \<Longrightarrow>
   set (relatedNodes st) \<subseteq> insert x (set (visited st)) \<Longrightarrow>
   set (relatedNodes st') = set (visited st')"
proof (induction n arbitrary: x st st')
  case 0
  then show ?case by simp
next
  case (Suc n)
  show ?case
  proof (cases "x \<in> set (visited st)")
    case True
    with Suc.prems show ?thesis by auto
  next
    case False
    define st1 where "st1 = st\<lparr>visited := set_add x (visited st),
                    relatedNodes := set_add x (relatedNodes st)\<rparr>"
    define f where "f = (\<lambda>(e::edge) (s::tstate). if target e = x
                 then traverseUp n es (source e)
                        (s\<lparr>relatedEdges := set_add (eid e) (relatedEdges s),
                           relatedNodes := set_add (source e) (relatedNodes s)\<rparr>)
                 else Some s)"
    define I where "I = (\<lambda>s::tstate. set (relatedNodes s) = set (visited s))"
    from Suc.prems(1) False have st': "forEach es f st1 = Some st'"
      by (simp add: f_def st1_def)
    have I1: "I st1" using Suc.prems(2,3) by (auto simp: I_def st1_def)
    have call: "I t'"
      if "I t" "traverseUp n es y (t\<lparr>relatedEdges := re,
             relatedNodes := set_add y (relatedNodes t)\<rparr>) = Some t'"
      for t t' :: tstate and y re
      using Suc.IH[OF that(2)] that(1) by (auto simp: I_def)
    have step: "I t'" if "e \<in> set es" "I t" "f e t = Some t'" for e and t t' :: tstate
      using that call[of t "source e" _ t'] by (auto simp: f_def split: if_splits)
    have "I st'" by (rule forEach_inv[where I = I, OF st' I1 step])
    then show ?thesis by (simp add: I_def)
  qed
qed


section \<open>The three public traversals\<close>

lemma list_ex_nid: "list_ex (\<lambda>m. nid m = x) (nodes g) \<longleftrightarrow> x \<in> node_ids g"
  by (auto simp: list_ex_iff node_ids_def)

lemma traceChain_fuel_total:
  assumes "fuel_of (edges g) \<le> n"
  shows "\<exists>r. traceChain_fuel n g S = Some r"
proof -
  have "\<exists>s'. forEach S (\<lambda>x s. if list_ex (\<lambda>m. nid m = x) (nodes g)
                      then traverse n (edges g) x s else Some s) init_state = Some s' \<and> True"
  proof (rule forEach_total)
    fix x and s :: tstate
    from traverse_fuel_of[OF assms, where x = x and st = s]
    obtain s' where "traverse n (edges g) x s = Some s'" by blast
    then show "\<exists>s'. (if list_ex (\<lambda>m. nid m = x) (nodes g)
                      then traverse n (edges g) x s else Some s) = Some s' \<and> True" by simp
  qed simp
  then show ?thesis by (auto simp: traceChain_fuel_def)
qed

lemma traceChain_fuel_mono:
  assumes "traceChain_fuel n g S = Some r" "n \<le> m"
  shows "traceChain_fuel m g S = Some r"
proof -
  from assms(1) obtain st where
    st: "forEach S (\<lambda>x s. if list_ex (\<lambda>m. nid m = x) (nodes g)
                      then traverse n (edges g) x s else Some s) init_state = Some st"
      and r: "r = result_of st"
    by (auto simp: traceChain_fuel_def)
  have "forEach S (\<lambda>x s. if list_ex (\<lambda>m. nid m = x) (nodes g)
                      then traverse m (edges g) x s else Some s) init_state = Some st"
  proof (rule forEach_mono[OF st])
    fix x and t t' :: tstate
    assume "(if list_ex (\<lambda>m. nid m = x) (nodes g)
                      then traverse n (edges g) x t else Some t) = Some t'"
    then show "(if list_ex (\<lambda>m. nid m = x) (nodes g)
                      then traverse m (edges g) x t else Some t) = Some t'"
      using traverse_fuel_mono[OF _ assms(2), where x = x and st = t and r = t']
      by (simp split: if_splits)
  qed
  then show ?thesis by (simp add: traceChain_fuel_def r)
qed

lemma traceChain_fuel_nodes:
  assumes "traceChain_fuel n g S = Some r"
  shows "set (cnodes r) = (undirected (edges g))\<^sup>* `` (set S \<inter> node_ids g)"
proof -
  define h where "h = (\<lambda>x (s::tstate). if list_ex (\<lambda>m. nid m = x) (nodes g)
                      then traverse n (edges g) x s else Some s)"
  define R where "R = undirected (edges g)"
  define A where "A = set S \<inter> node_ids g"
  define I where "I = (\<lambda>s::tstate. set (relatedNodes s) = set (visited s) \<and>
      (\<forall>v\<in>set (visited s). closed_at R v (set (visited s))) \<and> set (visited s) \<subseteq> R\<^sup>* `` A)"
  define Q where "Q = (\<lambda>x (s::tstate). x \<in> node_ids g \<longrightarrow> x \<in> set (visited s))"
  from assms obtain st where st: "forEach S h init_state = Some st" and r: "r = result_of st"
    by (auto simp: traceChain_fuel_def h_def)
  have I0: "I init_state" by (simp add: I_def init_state_def)
  have step: "I t' \<and> Q x t' \<and> (\<forall>y. Q y t \<longrightarrow> Q y t')"
    if x: "x \<in> set S" and t: "I t" and ht: "h x t = Some t'" for x and t t' :: tstate
  proof (cases "x \<in> node_ids g")
    case True
    with ht have tr: "traverse n (edges g) x t = Some t'" by (simp add: h_def list_ex_nid)
    have p: "dfs_post R x (set (visited t)) (set (visited t'))"
      using traverse_spec[OF tr] by (simp add: R_def)
    have xa: "x \<in> A" using x True by (simp add: A_def)
    from t have c: "\<forall>v\<in>set (visited t). closed_at R v (set (visited t))"
      and b: "set (visited t) \<subseteq> R\<^sup>* `` A" and n: "set (relatedNodes t) = set (visited t)"
      by (simp_all add: I_def)
    note top = dfs_top_step[OF c b p xa]
    have "set (relatedNodes t') = set (visited t')"
      by (rule traverse_nodes[OF tr]) (use n in auto)
    with top(1,2) have "I t'" by (simp add: I_def)
    moreover have "Q x t'" using top(4) by (simp add: Q_def)
    moreover have "\<forall>y. Q y t \<longrightarrow> Q y t'" using top(3) by (auto simp: Q_def)
    ultimately show ?thesis by blast
  next
    case False
    with ht have "t' = t" by (simp add: h_def list_ex_nid)
    with False t show ?thesis by (simp add: Q_def)
  qed
  note post = forEach_post[where I = I and Q = Q, OF st I0 step]
  have fin: "I st" by (rule post[THEN conjunct1])
  have q: "\<forall>x\<in>set S. Q x st" by (rule post[THEN conjunct2, THEN conjunct1])
  have "A \<subseteq> set (visited st)"
  proof
    fix x assume "x \<in> A"
    then have "x \<in> set S" "x \<in> node_ids g" by (simp_all add: A_def)
    with q show "x \<in> set (visited st)" unfolding Q_def by blast
  qed
  with fin have "set (visited st) = R\<^sup>* `` A"
    unfolding I_def by (intro closed_set_reach) blast+
  moreover have "set (relatedNodes st) = set (visited st)" using fin by (simp add: I_def)
  ultimately show ?thesis by (simp add: r result_of_def R_def A_def)
qed

lemma traceChain_returns: "\<exists>r. traceChain g S = Some r"
  unfolding traceChain_def by (rule traceChain_fuel_total) simp

lemma traceChain_fuel_indep:
  assumes "fuel_of (edges g) \<le> m"
  shows "traceChain_fuel m g S = traceChain g S"
proof -
  obtain r where r: "traceChain g S = Some r" using traceChain_returns by blast
  then have "traceChain_fuel m g S = Some r"
    unfolding traceChain_def using assms by (rule traceChain_fuel_mono)
  with r show ?thesis by simp
qed

lemma traceChain_nodes:
  "traceChain g S = Some r \<Longrightarrow>
   set (cnodes r) = (undirected (edges g))\<^sup>* `` (set S \<inter> node_ids g)"
  unfolding traceChain_def by (rule traceChain_fuel_nodes)

lemma traceImpact_returns: "\<exists>r. traceImpact g x = Some r"
  using traverseUp_fuel_of[of "edges g" "fuel_of (edges g)" x init_state]
  by (auto simp: traceImpact_def traceImpact_fuel_def)

lemma traceImpact_fuel_indep:
  assumes "fuel_of (edges g) \<le> m"
  shows "traceImpact_fuel m g x = traceImpact g x"
proof -
  obtain st where st: "traverseUp (fuel_of (edges g)) (edges g) x init_state = Some st"
    using traverseUp_fuel_of[of "edges g" "fuel_of (edges g)" x init_state] by auto
  from traverseUp_fuel_mono[OF st assms] st show ?thesis
    by (simp add: traceImpact_def traceImpact_fuel_def)
qed

lemma traceImpact_nodes:
  assumes "traceImpact g x = Some r"
  shows "set (cnodes r) = ((arcs (edges g))\<inverse>)\<^sup>* `` {x}"
proof -
  from assms obtain st where
    st: "traverseUp (fuel_of (edges g)) (edges g) x init_state = Some st"
    and r: "r = result_of st" by (auto simp: traceImpact_def traceImpact_fuel_def)
  have "dfs_post ((arcs (edges g))\<inverse>) x {} (set (visited st))"
    using traverseUp_spec[OF st] by (simp add: init_state_def)
  then have "set (visited st) = ((arcs (edges g))\<inverse>)\<^sup>* `` {x}" by (rule dfs_post_empty)
  moreover have "set (relatedNodes st) = set (visited st)"
    by (rule traverseUp_nodes[OF st]) (simp_all add: init_state_def)
  ultimately show ?thesis by (simp add: r result_of_def)
qed

lemma traceDependencies_returns: "\<exists>r. traceDependencies g x = Some r"
  using traverseUp_fuel_of[of "map flip_edge (edges g)" "fuel_of (edges g)" x init_state]
  by (auto simp: traceDependencies_def traceDependencies_fuel_def traverseDown_flip fuel_of_flip)

lemma traceDependencies_fuel_indep:
  assumes "fuel_of (edges g) \<le> m"
  shows "traceDependencies_fuel m g x = traceDependencies g x"
proof -
  obtain st where
    st: "traverseUp (fuel_of (edges g)) (map flip_edge (edges g)) x init_state = Some st"
    using traverseUp_fuel_of[of "map flip_edge (edges g)" "fuel_of (edges g)" x init_state]
    by (auto simp: fuel_of_flip)
  from traverseUp_fuel_mono[OF st assms] st show ?thesis
    by (simp add: traceDependencies_def traceDependencies_fuel_def traverseDown_flip)
qed

lemma traceDependencies_nodes:
  assumes "traceDependencies g x = Some r"
  shows "set (cnodes r) = (arcs (edges g))\<^sup>* `` {x}"
proof -
  from assms obtain st where
    st: "traverseUp (fuel_of (edges g)) (map flip_edge (edges g)) x init_state = Some st"
    and r: "r = result_of st"
    by (auto simp: traceDependencies_def traceDependencies_fuel_def traverseDown_flip)
  have "dfs_post ((arcs (map flip_edge (edges g)))\<inverse>) x {} (set (visited st))"
    using traverseUp_spec[OF st] by (simp add: init_state_def)
  then have "dfs_post (arcs (edges g)) x {} (set (visited st))"
    by (simp add: arcs_flip)
  then have "set (visited st) = (arcs (edges g))\<^sup>* `` {x}" by (rule dfs_post_empty)
  moreover have "set (relatedNodes st) = set (visited st)"
    by (rule traverseUp_nodes[OF st]) (simp_all add: init_state_def)
  ultimately show ?thesis by (simp add: r result_of_def)
qed

lemma traceDependencies_self:
  assumes "traceDependencies g x = Some r"
  shows "x \<in> set (cnodes r)"
  using traceDependencies_nodes[OF assms] by auto



section \<open>Properties of the traversals\<close>

lemma two_cycle_reach:
  assumes "arcs es = {(x, y), (y, x)}"
  shows "(undirected es)\<^sup>* `` {x} = {x, y}"
proof (rule closed_set_reach[symmetric])
  show "\<forall>v\<in>{x, y}. closed_at (undirected es) v {x, y}"
    using assms by (auto simp: closed_at_def undirected_def)
  show "{x} \<subseteq> {x, y}" by simp
  have "(x, y) \<in> undirected es" using assms by (simp add: undirected_def)
  then show "{x, y} \<subseteq> (undirected es)\<^sup>* `` {x}" by auto
qed

lemma path_reach_down:
  assumes "arcs es = {(a, b), (b, c)}" "a \<noteq> c"
  shows "(arcs es)\<^sup>* `` {b} = {b, c}"
proof (rule closed_set_reach[symmetric])
  show "\<forall>v\<in>{b, c}. closed_at (arcs es) v {b, c}"
    using assms by (auto simp: closed_at_def)
  show "{b} \<subseteq> {b, c}" by simp
  have "(b, c) \<in> arcs es" using assms by simp
  then show "{b, c} \<subseteq> (arcs es)\<^sup>* `` {b}" by auto
qed

lemma path_reach_up:
  assumes "arcs es = {(a, b), (b, c)}" "a \<noteq> c"
  shows "((arcs es)\<inverse>)\<^sup>* `` {b} = {a, b}"
proof (rule closed_set_reach[symmetric])
  show "\<forall>v\<in>{a, b}. closed_at ((arcs es)\<inverse>) v {a, b}"
    using assms by (auto simp: closed_at_def)
  show "{b} \<subseteq> {a, b}" by simp
  have "(b, a) \<in> (arcs es)\<inverse>" using assms by simp
  then show "{a, b} \<subseteq> ((arcs es)\<inverse>)\<^sup>* `` {b}" by auto
qed

lemma converse_reach: "(r\<inverse>)\<^sup>* `` {x} = {y. (y, x) \<in> r\<^sup>*}"
  by (auto simp: rtrancl_converse)

lemma traverseUp_isolated:
  assumes "\<forall>e\<in>set es. target e \<noteq> x"
  shows "traverseUp (Suc n) es x init_state =
           Some \<lparr>visited = [x], relatedNodes = [x], relatedEdges = []\<rparr>"
proof -
  have "forEach es (\<lambda>e s. if target e = x
                then traverseUp n es (source e)
                       (s\<lparr>relatedEdges := set_add (eid e) (relatedEdges s),
                          relatedNodes := set_add (source e) (relatedNodes s)\<rparr>)
                else Some s) s = Some s" for s :: tstate
    by (rule forEach_skip) (use assms in auto)
  then show ?thesis by (simp add: init_state_def set_add_def)
qed

lemma traverseUp_edges_mono:
  "traverseUp n es y st = Some st' \<Longrightarrow> set (relatedEdges st) \<subseteq> set (relatedEdges st')"
proof (induction n arbitrary: y st st')
  case 0
  then show ?case by simp
next
  case (Suc n)
  show ?case
  proof (cases "y \<in> set (visited st)")
    case True
    with Suc.prems show ?thesis by simp
  next
    case False
    define st1 where "st1 = st\<lparr>visited := set_add y (visited st),
                    relatedNodes := set_add y (relatedNodes st)\<rparr>"
    define f where "f = (\<lambda>(e::edge) (s::tstate). if target e = y
                 then traverseUp n es (source e)
                        (s\<lparr>relatedEdges := set_add (eid e) (relatedEdges s),
                           relatedNodes := set_add (source e) (relatedNodes s)\<rparr>)
                 else Some s)"
    define I where "I = (\<lambda>s::tstate. set (relatedEdges st) \<subseteq> set (relatedEdges s))"
    from Suc.prems False have st': "forEach es f st1 = Some st'"
      by (simp add: f_def st1_def)
    have I1: "I st1" by (simp add: I_def st1_def)
    have step: "I t'" if "e \<in> set es" "I t" "f e t = Some t'" for e and t t' :: tstate
    proof (cases "target e = y")
      case True
      with that(3) have "traverseUp n es (source e)
                        (t\<lparr>relatedEdges := set_add (eid e) (relatedEdges t),
                           relatedNodes := set_add (source e) (relatedNodes t)\<rparr>) = Some t'"
        by (simp add: f_def)
      from Suc.IH[OF this] that(2) show ?thesis by (auto simp: I_def)
    next
      case False
      with that(2,3) show ?thesis by (simp add: f_def)
    qed
    have "I st'" by (rule forEach_inv[where I = I, OF st' I1 step])
    then show ?thesis by (simp only: I_def)
  qed
qed

lemma traverseUp_incoming_edge:
  assumes "traverseUp (Suc n) es x st = Some st'" "x \<notin> set (visited st)"
    and "e \<in> set es" "target e = x"
  shows "eid e \<in> set (relatedEdges st')"
proof -
  define st1 where "st1 = st\<lparr>visited := set_add x (visited st),
                    relatedNodes := set_add x (relatedNodes st)\<rparr>"
  define f where "f = (\<lambda>(e::edge) (s::tstate). if target e = x
                 then traverseUp n es (source e)
                        (s\<lparr>relatedEdges := set_add (eid e) (relatedEdges s),
                           relatedNodes := set_add (source e) (relatedNodes s)\<rparr>)
                 else Some s)"
  define I where "I = (\<lambda>s::tstate. True)"
  define Q where "Q = (\<lambda>(e::edge) (s::tstate). target e = x \<longrightarrow> eid e \<in> set (relatedEdges s))"
  from assms(1,2) have st': "forEach es f st1 = Some st'"
    by (simp add: f_def st1_def)
  have I1: "I st1" by (simp add: I_def)
  have step: "I t' \<and> Q d t' \<and> (\<forall>y. Q y t \<longrightarrow> Q y t')"
    if "d \<in> set es" "I t" "f d t = Some t'" for d and t t' :: tstate
  proof (cases "target d = x")
    case True
    with that(3) have tr: "traverseUp n es (source d)
                        (t\<lparr>relatedEdges := set_add (eid d) (relatedEdges t),
                           relatedNodes := set_add (source d) (relatedNodes t)\<rparr>) = Some t'"
      by (simp add: f_def)
    from traverseUp_edges_mono[OF tr]
    have m: "insert (eid d) (set (relatedEdges t)) \<subseteq> set (relatedEdges t')" by simp
    have "Q d t'" using m by (simp add: Q_def)
    moreover have "\<forall>y. Q y t \<longrightarrow> Q y t'" using m unfolding Q_def by blast
    ultimately show ?thesis by (simp add: I_def)
  next
    case False
    with that(3) have "t' = t" by (simp add: f_def)
    with False show ?thesis by (simp add: I_def Q_def)
  qed
  note post = forEach_post[where I = I and Q = Q, OF st' I1 step]
  have "\<forall>d\<in>set es. Q d st'" by (rule post[THEN conjunct2, THEN conjunct1])
  with assms(3,4) show ?thesis unfolding Q_def by blast
qed

lemma traceImpact_alone:
  "traceImpact g x = Some \<lparr>cnodes = [x], cedges = []\<rparr> \<longleftrightarrow> (\<forall>e\<in>set (edges g). target e \<noteq> x)"
proof
  assume r: "traceImpact g x = Some \<lparr>cnodes = [x], cedges = []\<rparr>"
  show "\<forall>e\<in>set (edges g). target e \<noteq> x"
  proof (intro ballI notI)
    fix e assume e: "e \<in> set (edges g)" "target e = x"
    from r obtain st where
      st: "traverseUp (Suc (2 * length (edges g) + 1)) (edges g) x init_state = Some st"
      and res: "result_of st = \<lparr>cnodes = [x], cedges = []\<rparr>"
      by (auto simp: traceImpact_def traceImpact_fuel_def fuel_of_def)
    have "eid e \<in> set (relatedEdges st)"
      by (rule traverseUp_incoming_edge[OF st _ e]) (simp add: init_state_def)
    moreover have "relatedEdges st = []" using res by (simp add: result_of_def)
    ultimately show False by simp
  qed
next
  assume "\<forall>e\<in>set (edges g). target e \<noteq> x"
  from traverseUp_isolated[OF this, of "2 * length (edges g) + 1"]
  show "traceImpact g x = Some \<lparr>cnodes = [x], cedges = []\<rparr>"
    by (simp add: traceImpact_def traceImpact_fuel_def fuel_of_def result_of_def)
qed

lemma traceDependencies_alone:
  "traceDependencies g x = Some \<lparr>cnodes = [x], cedges = []\<rparr> \<longleftrightarrow>
     (\<forall>e\<in>set (edges g). source e \<noteq> x)"
proof
  assume r: "traceDependencies g x = Some \<lparr>cnodes = [x], cedges = []\<rparr>"
  show "\<forall>e\<in>set (edges g). source e \<noteq> x"
  proof (intro ballI notI)
    fix e assume e: "e \<in> set (edges g)" "source e = x"
    from r obtain st where
      st: "traverseUp (Suc (2 * length (edges g) + 1)) (map flip_edge (edges g)) x init_state
             = Some st"
      and res: "result_of st = \<lparr>cnodes = [x], cedges = []\<rparr>"
      by (auto simp: traceDependencies_def traceDependencies_fuel_def fuel_of_def
          traverseDown_flip)
    have "eid (flip_edge e) \<in> set (relatedEdges st)"
      by (rule traverseUp_incoming_edge[OF st]) (use e in \<open>simp_all add: init_state_def\<close>)
    moreover have "relatedEdges st = []" using res by (simp add: result_of_def)
    ultimately show False by simp
  qed
next
  assume "\<forall>e\<in>set (edges g). source e \<noteq> x"
  then have "\<forall>e\<in>set (map flip_edge (edges g)). target e \<noteq> x" by simp
  from traverseUp_isolated[OF this, of "2 * length (edges g) + 1"]
  show "traceDependencies g x = Some \<lparr>cnodes = [x], cedges = []\<rparr>"
    by (simp add: traceDependencies_def traceDependencies_fuel_def fuel_of_def result_of_def
        traverseDown_flip)
qed

text \<open>
  C1. For every list \<open>S\<close> of start IDs \<open>traceChain\<close> returns, and tracing again from
  the returned node set gives the same node set. When the members of \<open>S\<close> are nodes of
  the snapshot, the node set is the union of the weakly-connected components of the
  members of \<open>S\<close>: the IDs reachable from \<open>S\<close> when every edge may be followed in
  either direction. (A start ID that is no node of the snapshot is skipped, so in
  general the closure is taken from the members of \<open>S\<close> that are nodes.)
\<close>

theorem traceChain_closure:
  "\<exists>r. traceChain g S = Some r \<and>
       set (cnodes r) = (undirected (edges g))\<^sup>* `` (set S \<inter> node_ids g) \<and>
       (set S \<subseteq> node_ids g \<longrightarrow> set (cnodes r) = (undirected (edges g))\<^sup>* `` set S) \<and>
       (\<exists>r'. traceChain g (cnodes r) = Some r' \<and> set (cnodes r') = set (cnodes r))"
proof -
  define R where "R = undirected (edges g)"
  obtain r where r: "traceChain g S = Some r" using traceChain_returns by blast
  have n: "set (cnodes r) = R\<^sup>* `` (set S \<inter> node_ids g)"
    using traceChain_nodes[OF r] by (simp add: R_def)
  obtain r' where r': "traceChain g (cnodes r) = Some r'" using traceChain_returns by blast
  have n': "set (cnodes r') = R\<^sup>* `` (set (cnodes r) \<inter> node_ids g)"
    using traceChain_nodes[OF r'] by (simp add: R_def)
  have "set (cnodes r') = set (cnodes r)"
  proof
    show "set (cnodes r') \<subseteq> set (cnodes r)"
    proof
      fix z assume "z \<in> set (cnodes r')"
      with n' obtain y where y: "y \<in> set (cnodes r)" "(y, z) \<in> R\<^sup>*" by auto
      with n obtain a where a: "a \<in> set S \<inter> node_ids g" "(a, y) \<in> R\<^sup>*" by auto
      from a(2) y(2) have "(a, z) \<in> R\<^sup>*" by (rule rtrancl_trans)
      with a(1) n show "z \<in> set (cnodes r)" by auto
    qed
    show "set (cnodes r) \<subseteq> set (cnodes r')"
    proof
      fix z assume "z \<in> set (cnodes r)"
      with n obtain a where a: "a \<in> set S \<inter> node_ids g" "(a, z) \<in> R\<^sup>*" by auto
      from a(1) n have "a \<in> set (cnodes r) \<inter> node_ids g" by auto
      with a(2) n' show "z \<in> set (cnodes r')" by auto
    qed
  qed
  moreover have "set S \<subseteq> node_ids g \<longrightarrow> set (cnodes r) = R\<^sup>* `` set S"
    using n by (simp add: Int_absorb2)
  ultimately show ?thesis using r r' n unfolding R_def by blast
qed

theorem traceChain_closure_witness:
  "set [''A''] \<subseteq> node_ids triangle \<and>
   (\<exists>r. traceChain triangle [''A''] = Some r \<and>
        set (cnodes r) = (undirected (edges triangle))\<^sup>* `` set [''A''] \<and>
        (\<exists>r'. traceChain triangle (cnodes r) = Some r' \<and> set (cnodes r') = set (cnodes r)))"
proof -
  have h: "set [''A''] \<subseteq> node_ids triangle"
    by (simp add: node_ids_def triangle_def mk_node_def)
  from traceChain_closure[of triangle "[''A'']"] h show ?thesis by blast
qed

text \<open>
  C3. Every traversal returns on every graph, cyclic or not: the budget \<open>fuel_of\<close> is
  enough for \<open>traceChain\<close>, \<open>traceImpact\<close> and \<open>traceDependencies\<close>, and a larger budget
  gives the same result. On the two-node cycle \<open>X \<rightarrow> Y\<close>, \<open>Y \<rightarrow> X\<close>, with \<open>X\<close> a node of
  the snapshot, \<open>traceChain([X])\<close> returns the node set \<open>{X, Y}\<close>.
\<close>

theorem traversals_terminate:
  assumes "x \<in> node_ids g" and "arcs (edges g) = {(x, y), (y, x)}"
  shows "(\<exists>r. traceChain g [x] = Some r \<and> set (cnodes r) = {x, y}) \<and>
         (\<forall>g' S z. (\<exists>r. traceChain g' S = Some r) \<and> (\<exists>r. traceImpact g' z = Some r) \<and>
                   (\<exists>r. traceDependencies g' z = Some r)) \<and>
         (\<forall>g' S z m. fuel_of (edges g') \<le> m \<longrightarrow>
                   traceChain_fuel m g' S = traceChain g' S \<and>
                   traceImpact_fuel m g' z = traceImpact g' z \<and>
                   traceDependencies_fuel m g' z = traceDependencies g' z)"
proof (intro conjI allI impI)
  obtain r where r: "traceChain g [x] = Some r" using traceChain_returns by blast
  have "set (cnodes r) = (undirected (edges g))\<^sup>* `` {x}"
    using traceChain_nodes[OF r] assms(1) by simp
  then have "set (cnodes r) = {x, y}" using two_cycle_reach[OF assms(2)] by simp
  with r show "\<exists>r. traceChain g [x] = Some r \<and> set (cnodes r) = {x, y}" by blast
next
  fix g' :: engine and S z
  show "\<exists>r. traceChain g' S = Some r" by (rule traceChain_returns)
  show "\<exists>r. traceImpact g' z = Some r" by (rule traceImpact_returns)
  show "\<exists>r. traceDependencies g' z = Some r" by (rule traceDependencies_returns)
next
  fix g' :: engine and S z m
  assume m: "fuel_of (edges g') \<le> m"
  show "traceChain_fuel m g' S = traceChain g' S" using m by (rule traceChain_fuel_indep)
  show "traceImpact_fuel m g' z = traceImpact g' z" using m by (rule traceImpact_fuel_indep)
  show "traceDependencies_fuel m g' z = traceDependencies g' z"
    using m by (rule traceDependencies_fuel_indep)
qed

theorem traversals_terminate_witness:
  "''X'' \<in> node_ids two_cycle \<and> arcs (edges two_cycle) = {(''X'', ''Y''), (''Y'', ''X'')} \<and>
   (\<exists>r. traceChain two_cycle [''X''] = Some r \<and> set (cnodes r) = {''X'', ''Y''})"
proof -
  have h1: "''X'' \<in> node_ids two_cycle"
    by (simp add: node_ids_def two_cycle_def mk_node_def)
  have h2: "arcs (edges two_cycle) = {(''X'', ''Y''), (''Y'', ''X'')}"
    by (simp add: arcs_def two_cycle_def mk_edge_def)
  from traversals_terminate[OF h1 h2] h1 h2 show ?thesis by blast
qed

text \<open>
  C6. \<open>traceImpact(x)\<close> returns the IDs from which \<open>x\<close> can be reached along the edges
  (incoming edges followed transitively), \<open>traceDependencies(x)\<close> the IDs that can be
  reached from \<open>x\<close> (outgoing edges followed transitively). On the graph \<open>A \<rightarrow> B\<close>,
  \<open>B \<rightarrow> C\<close> this gives \<open>{B, C}\<close> for the dependencies of \<open>B\<close> and \<open>{A, B}\<close> for its impact.
\<close>

theorem trace_directionality:
  assumes "arcs (edges g) = {(a, b), (b, c)}" and "distinct [a, b, c]"
  shows "(\<exists>r. traceDependencies g b = Some r \<and> set (cnodes r) = {b, c} \<and> a \<notin> set (cnodes r)) \<and>
         (\<exists>r. traceImpact g b = Some r \<and> set (cnodes r) = {a, b} \<and> c \<notin> set (cnodes r)) \<and>
         (\<forall>g' x. (\<exists>r. traceImpact g' x = Some r \<and>
                       set (cnodes r) = {y. (y, x) \<in> (arcs (edges g'))\<^sup>*}) \<and>
                 (\<exists>r. traceDependencies g' x = Some r \<and>
                       set (cnodes r) = {y. (x, y) \<in> (arcs (edges g'))\<^sup>*}))"
proof (intro conjI allI)
  from assms(2) have ac: "a \<noteq> c" and ab: "a \<noteq> b" and bc: "b \<noteq> c" by auto
  obtain r where r: "traceDependencies g b = Some r" using traceDependencies_returns by blast
  have "set (cnodes r) = {b, c}"
    using traceDependencies_nodes[OF r] path_reach_down[OF assms(1) ac] by (rule trans)
  with r ab ac show "\<exists>r. traceDependencies g b = Some r \<and> set (cnodes r) = {b, c} \<and>
      a \<notin> set (cnodes r)" by auto
  obtain r' where r': "traceImpact g b = Some r'" using traceImpact_returns by blast
  have "set (cnodes r') = {a, b}"
    using traceImpact_nodes[OF r'] path_reach_up[OF assms(1) ac] by (rule trans)
  with r' bc ac show "\<exists>r. traceImpact g b = Some r \<and> set (cnodes r) = {a, b} \<and>
      c \<notin> set (cnodes r)" by auto
next
  fix g' :: engine and x
  obtain r where r: "traceImpact g' x = Some r" using traceImpact_returns by blast
  from traceImpact_nodes[OF r] r
  show "\<exists>r. traceImpact g' x = Some r \<and> set (cnodes r) = {y. (y, x) \<in> (arcs (edges g'))\<^sup>*}"
    by (simp add: converse_reach)
  obtain r' where r': "traceDependencies g' x = Some r'"
    using traceDependencies_returns by blast
  from traceDependencies_nodes[OF r'] r'
  show "\<exists>r. traceDependencies g' x = Some r \<and>
            set (cnodes r) = {y. (x, y) \<in> (arcs (edges g'))\<^sup>*}"
    by (auto simp: Image_def)
qed

theorem trace_directionality_witness:
  "arcs (edges path3) = {(''A'', ''B''), (''B'', ''C'')} \<and> distinct [''A'', ''B'', ''C''] \<and>
   (\<exists>r. traceDependencies path3 ''B'' = Some r \<and> set (cnodes r) = {''B'', ''C''}) \<and>
   (\<exists>r. traceImpact path3 ''B'' = Some r \<and> set (cnodes r) = {''A'', ''B''})"
proof -
  have h1: "arcs (edges path3) = {(''A'', ''B''), (''B'', ''C'')}"
    by (simp add: arcs_def path3_def mk_edge_def)
  have h2: "distinct [''A'', ''B'', ''C'']" by simp
  note t = trace_directionality[OF h1 h2]
  from t[THEN conjunct1] obtain r where
    "traceDependencies path3 ''B'' = Some r \<and> set (cnodes r) = {''B'', ''C''}" by blast
  moreover from t[THEN conjunct2, THEN conjunct1] obtain r' where
    "traceImpact path3 ''B'' = Some r' \<and> set (cnodes r') = {''A'', ''B''}" by blast
  ultimately show ?thesis using h1 h2 by blast
qed

text \<open>
  C7 (as the code has it). For an ID \<open>x\<close> that is not in the node snapshot, no
  traversal fails. \<open>traceChain([x])\<close> returns empty node and edge sets.
  \<open>traceImpact(x)\<close> and \<open>traceDependencies(x)\<close> never look at the snapshot:
  \<open>traceImpact(x)\<close> returns \<open>x\<close> with every ID from which \<open>x\<close> is reached along the
  edges, \<open>traceDependencies(x)\<close> returns \<open>x\<close> with every ID reached from \<open>x\<close>. The
  result of \<open>traceImpact(x)\<close> is \<open>{x}\<close> with no edge exactly when no edge has \<open>x\<close> as
  its target, that of \<open>traceDependencies(x)\<close> exactly when no edge has \<open>x\<close> as its
  source; both are, when no edge names \<open>x\<close> at all.
\<close>

theorem absent_start_id:
  assumes "x \<notin> node_ids g"
  shows "traceChain g [x] = Some \<lparr>cnodes = [], cedges = []\<rparr> \<and>
         (\<exists>r. traceImpact g x = Some r \<and> set (cnodes r) = {y. (y, x) \<in> (arcs (edges g))\<^sup>*}) \<and>
         (\<exists>r. traceDependencies g x = Some r \<and>
              set (cnodes r) = {y. (x, y) \<in> (arcs (edges g))\<^sup>*}) \<and>
         (traceImpact g x = Some \<lparr>cnodes = [x], cedges = []\<rparr> \<longleftrightarrow>
            (\<forall>e\<in>set (edges g). target e \<noteq> x)) \<and>
         (traceDependencies g x = Some \<lparr>cnodes = [x], cedges = []\<rparr> \<longleftrightarrow>
            (\<forall>e\<in>set (edges g). source e \<noteq> x)) \<and>
         (x \<notin> endpoints (edges g) \<longrightarrow>
            traceImpact g x = Some \<lparr>cnodes = [x], cedges = []\<rparr> \<and>
            traceDependencies g x = Some \<lparr>cnodes = [x], cedges = []\<rparr>)"
proof (intro conjI impI)
  show "traceChain g [x] = Some \<lparr>cnodes = [], cedges = []\<rparr>"
    using assms
    by (simp add: traceChain_def traceChain_fuel_def list_ex_nid init_state_def result_of_def)
  obtain r where r: "traceImpact g x = Some r" using traceImpact_returns by blast
  from traceImpact_nodes[OF r] r
  show "\<exists>r. traceImpact g x = Some r \<and> set (cnodes r) = {y. (y, x) \<in> (arcs (edges g))\<^sup>*}"
    by (simp add: converse_reach)
  obtain r' where r': "traceDependencies g x = Some r'"
    using traceDependencies_returns by blast
  from traceDependencies_nodes[OF r'] r'
  show "\<exists>r. traceDependencies g x = Some r \<and>
            set (cnodes r) = {y. (x, y) \<in> (arcs (edges g))\<^sup>*}"
    by (auto simp: Image_def)
  show "traceImpact g x = Some \<lparr>cnodes = [x], cedges = []\<rparr> \<longleftrightarrow>
          (\<forall>e\<in>set (edges g). target e \<noteq> x)"
    by (rule traceImpact_alone)
  show "traceDependencies g x = Some \<lparr>cnodes = [x], cedges = []\<rparr> \<longleftrightarrow>
          (\<forall>e\<in>set (edges g). source e \<noteq> x)"
    by (rule traceDependencies_alone)
next
  assume iso: "x \<notin> endpoints (edges g)"
  then have t: "\<forall>e\<in>set (edges g). target e \<noteq> x" and s: "\<forall>e\<in>set (edges g). source e \<noteq> x"
    by (auto simp: endpoints_def)
  show "traceImpact g x = Some \<lparr>cnodes = [x], cedges = []\<rparr>"
    using t by (simp only: traceImpact_alone)
  show "traceDependencies g x = Some \<lparr>cnodes = [x], cedges = []\<rparr>"
    using s by (simp only: traceDependencies_alone)
qed

theorem absent_start_id_witness:
  "''Z'' \<notin> node_ids path3 \<and> ''Z'' \<notin> endpoints (edges path3) \<and>
   traceChain path3 [''Z''] = Some \<lparr>cnodes = [], cedges = []\<rparr> \<and>
   traceImpact path3 ''Z'' = Some \<lparr>cnodes = [''Z''], cedges = []\<rparr> \<and>
   traceDependencies path3 ''Z'' = Some \<lparr>cnodes = [''Z''], cedges = []\<rparr>"
proof -
  have h1: "''Z'' \<notin> node_ids path3" by (simp add: node_ids_def path3_def mk_node_def)
  have h2: "''Z'' \<notin> endpoints (edges path3)"
    by (simp add: endpoints_def path3_def mk_edge_def)
  note t = absent_start_id[OF h1]
  have "traceChain path3 [''Z''] = Some \<lparr>cnodes = [], cedges = []\<rparr>"
    by (rule t[THEN conjunct1])
  moreover have "traceImpact path3 ''Z'' = Some \<lparr>cnodes = [''Z''], cedges = []\<rparr> \<and>
      traceDependencies path3 ''Z'' = Some \<lparr>cnodes = [''Z''], cedges = []\<rparr>"
    using t[THEN conjunct2, THEN conjunct2, THEN conjunct2, THEN conjunct2, THEN conjunct2] h2
    by (rule mp)
  ultimately show ?thesis using h1 h2 by simp
qed

text \<open>
  C7 as stated fails where an edge dangles: \<open>A\<close> is no node of the snapshot, yet
  \<open>traceDependencies(A)\<close> follows the edge \<open>A \<rightarrow> B\<close> and reaches \<open>B\<close>.
\<close>

theorem absent_start_id_counterexample:
  "''A'' \<notin> node_ids dangling \<and>
   traceDependencies dangling ''A'' = Some \<lparr>cnodes = [''A'', ''B''], cedges = [''e1'']\<rparr>"
  by (simp add: node_ids_def dangling_def mk_node_def mk_edge_def traceDependencies_def
      traceDependencies_fuel_def fuel_of_def init_state_def result_of_def set_add_def
      eval_nat_numeral)

text \<open>
  C10. The edge set of \<open>traceChain\<close> is not the induced edge set of its node set. With
  the edges \<open>e1: A \<rightarrow> B\<close>, \<open>e2: A \<rightarrow> C\<close>, \<open>e3: B \<rightarrow> C\<close> in this order and \<open>A\<close> a node of the
  snapshot, \<open>traceChain([A])\<close> returns the nodes \<open>A, B, C\<close> and the edges \<open>e1, e3\<close>:
  \<open>e2\<close> is left out although both its ends are returned.
\<close>

theorem traceChain_edges_not_induced:
  assumes "''A'' \<in> node_ids g"
    and "edges g = [mk_edge ''e1'' ''A'' ''B'', mk_edge ''e2'' ''A'' ''C'',
                    mk_edge ''e3'' ''B'' ''C'']"
  shows "traceChain g [''A''] =
           Some \<lparr>cnodes = [''A'', ''B'', ''C''], cedges = [''e1'', ''e3'']\<rparr> \<and>
         ''e2'' \<notin> set [''e1'', ''e3''] \<and>
         source (mk_edge ''e2'' ''A'' ''C'') \<in> set [''A'', ''B'', ''C''] \<and>
         target (mk_edge ''e2'' ''A'' ''C'') \<in> set [''A'', ''B'', ''C'']"
  using assms
  by (simp add: traceChain_def traceChain_fuel_def list_ex_nid fuel_of_def mk_edge_def
      init_state_def result_of_def set_add_def eval_nat_numeral)

theorem traceChain_edges_not_induced_witness:
  "''A'' \<in> node_ids triangle \<and>
   traceChain triangle [''A''] =
     Some \<lparr>cnodes = [''A'', ''B'', ''C''], cedges = [''e1'', ''e3'']\<rparr>"
proof -
  have h1: "''A'' \<in> node_ids triangle" by (simp add: node_ids_def triangle_def mk_node_def)
  have h2: "edges triangle = [mk_edge ''e1'' ''A'' ''B'', mk_edge ''e2'' ''A'' ''C'',
                    mk_edge ''e3'' ''B'' ''C'']" by (simp add: triangle_def)
  from traceChain_edges_not_induced[OF h1 h2] h1 show ?thesis by blast
qed


section \<open>Statistics, priorities and correlations\<close>

lemma queryNodes_kpi [simp]:
  "queryNodes g (no_condition\<lparr>q_category := Some [Kpi]\<rparr>) = kpi_nodes (nodes g)"
  by (simp add: queryNodes_def no_condition_def kpi_nodes_def)

lemma stats_fold:
  "s_achieved (snd (fold stats_step ns acc)) + s_unachieved (snd (fold stats_step ns acc)) =
   s_achieved (snd acc) + s_unachieved (snd acc) + length (kpi_nodes_with_metrics ns)"
proof (induction ns arbitrary: acc)
  case Nil
  show ?case by (simp add: kpi_nodes_with_metrics_def)
next
  case (Cons n ns)
  have "s_achieved (snd (stats_step n acc)) + s_unachieved (snd (stats_step n acc)) =
        s_achieved (snd acc) + s_unachieved (snd acc) +
        (if category n = Kpi \<and> metrics n \<noteq> None then 1 else 0)"
    by (simp add: stats_step_def Let_def split: bool.splits option.splits)
  with Cons.IH[of "stats_step n acc"] show ?case
    by (simp add: kpi_nodes_with_metrics_def)
qed

text \<open>
  C2 (as the code has it). \<open>calculateStats\<close> counts a node under \<open>achieved\<close> or
  \<open>unachieved\<close> only if its category is \<open>kpi\<close> and it carries a metrics record: the
  two counters add up to the number of such nodes of the input, which is the number
  of all KPI nodes when each of them carries metrics.
\<close>

theorem calculateStats_status_total:
  "s_achieved (byStatus (calculateStats g arg)) + s_unachieved (byStatus (calculateStats g arg)) =
     length (kpi_nodes_with_metrics (case arg of Some ns \<Rightarrow> ns | None \<Rightarrow> nodes g)) \<and>
   (list_all (\<lambda>n. metrics n \<noteq> None) (kpi_nodes (case arg of Some ns \<Rightarrow> ns | None \<Rightarrow> nodes g)) \<longrightarrow>
    s_achieved (byStatus (calculateStats g arg)) + s_unachieved (byStatus (calculateStats g arg)) =
      length (kpi_nodes (case arg of Some ns \<Rightarrow> ns | None \<Rightarrow> nodes g)))"
proof -
  define ns where "ns = (case arg of Some ns \<Rightarrow> ns | None \<Rightarrow> nodes g)"
  have a: "s_achieved (byStatus (calculateStats g arg)) +
           s_unachieved (byStatus (calculateStats g arg)) = length (kpi_nodes_with_metrics ns)"
    using stats_fold[of ns] by (simp add: calculateStats_def Let_def ns_def)
  have "kpi_nodes_with_metrics ns = kpi_nodes ns"
    if "list_all (\<lambda>n. metrics n \<noteq> None) (kpi_nodes ns)"
    using that unfolding kpi_nodes_with_metrics_def kpi_nodes_def
    by (intro filter_cong) (auto simp: list_all_iff)
  with a show ?thesis unfolding ns_def by simp
qed

theorem calculateStats_status_total_witness:
  "list_all (\<lambda>n. metrics n \<noteq> None) (kpi_nodes (nodes shared_design)) \<and>
   s_achieved (byStatus (calculateStats shared_design None)) +
   s_unachieved (byStatus (calculateStats shared_design None)) = 2 \<and>
   length (kpi_nodes (nodes shared_design)) = 2"
proof -
  have h: "list_all (\<lambda>n. metrics n \<noteq> None) (kpi_nodes (nodes shared_design))"
    by (simp add: kpi_nodes_def shared_design_def mk_kpi_def mk_node_def)
  have l: "length (kpi_nodes (nodes shared_design)) = 2"
    by (simp add: kpi_nodes_def shared_design_def mk_kpi_def mk_node_def)
  from calculateStats_status_total[of shared_design None] h l show ?thesis by simp
qed

text \<open>
  C2 as stated fails for a KPI node without a metrics record: it is counted neither as
  achieved nor as unachieved.
\<close>

theorem calculateStats_counterexample:
  "s_achieved (byStatus (calculateStats triangle (Some [mk_node ''K'' Kpi]))) +
   s_unachieved (byStatus (calculateStats triangle (Some [mk_node ''K'' Kpi]))) = 0 \<and>
   length (kpi_nodes [mk_node ''K'' Kpi]) = 1"
  by (simp add: calculateStats_def stats_step_def mk_node_def kpi_nodes_def
      split: bool.splits option.splits)

lemma sort_desc_props [simp]:
  "length (sort_desc k xs) = length xs" "set (sort_desc k xs) = set xs"
  "mset (sort_desc k xs) = mset xs"
  by (simp_all add: sort_desc_def)

lemma sort_desc_sorted: "sorted_wrt (\<lambda>a b. k b \<le> k a) (sort_desc k xs)"
proof -
  have "sorted (map (\<lambda>x. - int (k x)) (sort_desc k xs))"
    unfolding sort_desc_def by (rule sorted_sort_key)
  then show ?thesis by (simp add: sorted_map)
qed

lemma priority_of_single:
  assumes "cnodes impact \<noteq> []"
  shows "\<exists>p. priority_of g kpi impact = [p] \<and> nodeId p = nid kpi \<and> 1 \<le> priorityScore p"
proof -
  obtain c cs where "cnodes impact = c # cs" using assms by (cases "cnodes impact") auto
  then show ?thesis by (simp add: priority_of_def Let_def)
qed

lemma prioritize_loop:
  "\<exists>ps. forEach ks (\<lambda>kpi priorities.
                 map_option (\<lambda>impact. priorities @ priority_of g kpi impact)
                   (traceDependencies g (nid kpi))) acc = Some (acc @ ps) \<and>
        map nodeId ps = map nid ks \<and> (\<forall>p\<in>set ps. 1 \<le> priorityScore p)"
proof (induction ks arbitrary: acc)
  case Nil
  show ?case by simp
next
  case (Cons k ks)
  obtain r where r: "traceDependencies g (nid k) = Some r"
    using traceDependencies_returns by blast
  have "cnodes r \<noteq> []" using traceDependencies_self[OF r] by auto
  then obtain p where p: "priority_of g k r = [p]" "nodeId p = nid k" "1 \<le> priorityScore p"
    using priority_of_single by blast
  from Cons.IH[of "acc @ [p]"] obtain ps where
    ps: "forEach ks (\<lambda>kpi priorities.
                 map_option (\<lambda>impact. priorities @ priority_of g kpi impact)
                   (traceDependencies g (nid kpi))) (acc @ [p]) = Some ((acc @ [p]) @ ps)"
      "map nodeId ps = map nid ks" "\<forall>p\<in>set ps. 1 \<le> priorityScore p"
    by blast
  show ?case
  proof (intro exI conjI)
    show "forEach (k # ks) (\<lambda>kpi priorities.
                 map_option (\<lambda>impact. priorities @ priority_of g kpi impact)
                   (traceDependencies g (nid kpi))) acc = Some (acc @ (p # ps))"
      using r p(1) ps(1) by simp
    show "map nodeId (p # ps) = map nid (k # ks)" using p(2) ps(2) by simp
    show "\<forall>q\<in>set (p # ps). 1 \<le> priorityScore q" using p(3) ps(3) by simp
  qed
qed

text \<open>
  C9. \<open>prioritizeNodes\<close> returns one entry for every KPI node of the snapshot: the
  dependencies traced from a KPI contain the KPI itself, so the capped impact bonus
  and with it the score is at least 1, the filter \<open>score > 0\<close> removes nothing, and the
  result has as many entries as there are KPI nodes.
\<close>

theorem prioritizeNodes_covers_kpis:
  "(\<exists>ps. prioritizeNodes g = Some ps \<and>
         length ps = length (kpi_nodes (nodes g)) \<and>
         mset (map nodeId ps) = mset (map nid (kpi_nodes (nodes g))) \<and>
         (\<forall>p\<in>set ps. 1 \<le> priorityScore p)) \<and>
   (\<forall>x. \<exists>r. traceDependencies g x = Some r \<and> x \<in> set (cnodes r) \<and>
             1 \<le> min (length (cnodes r)) 20)"
proof
  from prioritize_loop[of "kpi_nodes (nodes g)" g "[]"] obtain ps where
    ps: "forEach (kpi_nodes (nodes g)) (\<lambda>kpi priorities.
                 map_option (\<lambda>impact. priorities @ priority_of g kpi impact)
                   (traceDependencies g (nid kpi))) [] = Some ps"
      "map nodeId ps = map nid (kpi_nodes (nodes g))" "\<forall>p\<in>set ps. 1 \<le> priorityScore p"
    by auto
  have res: "prioritizeNodes g = Some (sort_desc priorityScore ps)"
    using ps(1) by (simp add: prioritizeNodes_def)
  have "length ps = length (kpi_nodes (nodes g))"
    using ps(2) by (metis length_map)
  moreover have "mset (map nodeId (sort_desc priorityScore ps)) = mset (map nid (kpi_nodes (nodes g)))"
    using ps(2) by (metis mset_map sort_desc_props(3))
  ultimately show "\<exists>ps. prioritizeNodes g = Some ps \<and>
         length ps = length (kpi_nodes (nodes g)) \<and>
         mset (map nodeId ps) = mset (map nid (kpi_nodes (nodes g))) \<and>
         (\<forall>p\<in>set ps. 1 \<le> priorityScore p)"
    using res ps(3) by (intro exI[of _ "sort_desc priorityScore ps"]) simp
next
  show "\<forall>x. \<exists>r. traceDependencies g x = Some r \<and> x \<in> set (cnodes r) \<and>
             1 \<le> min (length (cnodes r)) 20"
  proof
    fix x
    obtain r where r: "traceDependencies g x = Some r"
      using traceDependencies_returns by blast
    have x: "x \<in> set (cnodes r)" by (rule traceDependencies_self[OF r])
    then have "1 \<le> min (length (cnodes r)) 20" by (cases "cnodes r") simp_all
    with r x show "\<exists>r. traceDependencies g x = Some r \<and> x \<in> set (cnodes r) \<and>
             1 \<le> min (length (cnodes r)) 20" by blast
  qed
qed

theorem prioritizeNodes_covers_kpis_witness:
  "length (kpi_nodes (nodes shared_design)) = 2 \<and>
   (\<exists>ps. prioritizeNodes shared_design = Some ps \<and> length ps = 2 \<and>
         (\<forall>p\<in>set ps. 1 \<le> priorityScore p))"
proof -
  have l: "length (kpi_nodes (nodes shared_design)) = 2"
    by (simp add: kpi_nodes_def shared_design_def mk_kpi_def mk_node_def)
  from prioritizeNodes_covers_kpis[of shared_design, THEN conjunct1] l show ?thesis by auto
qed


lemma fold_set_add: "set (fold set_add xs acc) = set xs \<union> set acc"
  by (induction xs arbitrary: acc) auto

lemma distinct_fold_set_add: "distinct acc \<Longrightarrow> distinct (fold set_add xs acc)"
  by (induction xs arbitrary: acc) auto

lemma new_Set_props [simp]: "set (new_Set xs) = set xs" "distinct (new_Set xs)"
  by (simp_all add: new_Set_def fold_set_add distinct_fold_set_add)

lemma connected_fold:
  "set (fold (\<lambda>e ids. if (dir = Outgoing \<or> dir = Both) \<and> source e = i
                       then set_add (target e)
                              (if (dir = Incoming \<or> dir = Both) \<and> target e = i
                               then set_add (source e) ids else ids)
                       else if (dir = Incoming \<or> dir = Both) \<and> target e = i
                            then set_add (source e) ids else ids) es acc) =
   set acc \<union> {source e | e. e \<in> set es \<and> (dir = Incoming \<or> dir = Both) \<and> target e = i}
           \<union> {target e | e. e \<in> set es \<and> (dir = Outgoing \<or> dir = Both) \<and> source e = i}"
  by (induction es arbitrary: acc) auto

lemma getConnectedNodes_set:
  "set (getConnectedNodes g i dir) =
     {n \<in> set (nodes g).
        nid n \<in> {source e | e. e \<in> set (edges g) \<and> (dir = Incoming \<or> dir = Both) \<and> target e = i}
              \<union> {target e | e. e \<in> set (edges g) \<and> (dir = Outgoing \<or> dir = Both) \<and> source e = i}}"
  unfolding getConnectedNodes_def Let_def set_filter connected_fold by simp

lemma outgoing_ids_set [simp]: "set (outgoing_ids g c i) = out_neighbours g c i"
  by (auto simp: outgoing_ids_def out_neighbours_def arcs_def image_iff getConnectedNodes_set)

lemma outgoing_ids_distinct [simp]: "distinct (outgoing_ids g c i)"
  by (simp add: outgoing_ids_def)

lemma shared_length:
  "length (filter (\<lambda>i. i \<in> set (outgoing_ids g c (nid k2))) (outgoing_ids g c (nid k1))) =
   card (shared g c k1 k2)"
proof -
  have "{x. x \<in> out_neighbours g c (nid k2)} \<inter> out_neighbours g c (nid k1) = shared g c k1 k2"
    by (auto simp: shared_def)
  then show ?thesis by (simp add: distinct_length_filter)
qed

lemma finite_out_neighbours [simp]: "finite (out_neighbours g c i)"
proof -
  have "finite (set (outgoing_ids g c i))" by (rule finite_set)
  then show ?thesis by (simp only: outgoing_ids_set)
qed

lemma finite_shared [simp]: "finite (shared g c k1 k2)"
  by (simp add: shared_def)

lemma correlate_cases:
  "correlate g k1 k2 =
    (if 0 < card (shared g Design k1 k2) \<or> 0 < card (shared g Verify k1 k2)
     then [\<lparr>kpi1 = \<lparr>k_id = nid k1, k_name = label k1,
                    k_achieved = (case metrics k1 of None \<Rightarrow> False | Some m \<Rightarrow> achieved m)\<rparr>,
            kpi2 = \<lparr>k_id = nid k2, k_name = label k2,
                    k_achieved = (case metrics k2 of None \<Rightarrow> False | Some m \<Rightarrow> achieved m)\<rparr>,
            sharedDesignParams = card (shared g Design k1 k2),
            sharedVerifications = card (shared g Verify k1 k2),
            correlationStrength =
              (if 2 \<le> card (shared g Design k1 k2) then Strong
               else if 1 \<le> card (shared g Design k1 k2) then Medium else Weak),
            insight = generateCorrelationInsight k1 k2 (card (shared g Design k1 k2))
                        (card (shared g Verify k1 k2))\<rparr>]
     else [])"
  unfolding correlate_def Let_def shared_length ..

lemma correlate_all_pairs:
  "correlate_all g ks = concat (map (\<lambda>(k1, k2). correlate g k1 k2) (pairs_of ks))"
  by (induction ks) (simp_all add: comp_def)

text \<open>
  C8. \<open>analyzeCorrelations\<close> holds the entries of the pairs of KPI nodes, each pair
  once, sorted by decreasing number of shared design neighbours. A pair has an entry
  if and only if the two KPIs share a design neighbour or a verify neighbour; the
  entry carries the two counts, its strength is \<open>strong\<close> exactly when at least 2 design
  neighbours are shared and \<open>medium\<close> exactly when 1 is. Two KPIs sharing 2 design
  neighbours and no verify neighbour are classified \<open>strong\<close>.
\<close>

theorem analyzeCorrelations_spec:
  "mset (analyzeCorrelations g) =
     mset (concat (map (\<lambda>(k1, k2). correlate g k1 k2) (pairs_of (kpi_nodes (nodes g))))) \<and>
   sorted_wrt (\<lambda>a b. sharedDesignParams b \<le> sharedDesignParams a) (analyzeCorrelations g) \<and>
   (\<forall>k1 k2.
      (correlate g k1 k2 \<noteq> [] \<longleftrightarrow> shared g Design k1 k2 \<noteq> {} \<or> shared g Verify k1 k2 \<noteq> {}) \<and>
      (\<forall>c\<in>set (correlate g k1 k2).
          correlate g k1 k2 = [c] \<and> k_id (kpi1 c) = nid k1 \<and> k_id (kpi2 c) = nid k2 \<and>
          sharedDesignParams c = card (shared g Design k1 k2) \<and>
          sharedVerifications c = card (shared g Verify k1 k2) \<and>
          (correlationStrength c = Strong \<longleftrightarrow> 2 \<le> card (shared g Design k1 k2)) \<and>
          (correlationStrength c = Medium \<longleftrightarrow> card (shared g Design k1 k2) = 1)) \<and>
      (card (shared g Design k1 k2) = 2 \<and> shared g Verify k1 k2 = {} \<longrightarrow>
         (\<exists>c. correlate g k1 k2 = [c] \<and> correlationStrength c = Strong)))"
proof (intro conjI allI)
  show "mset (analyzeCorrelations g) =
     mset (concat (map (\<lambda>(k1, k2). correlate g k1 k2) (pairs_of (kpi_nodes (nodes g)))))"
    by (simp add: analyzeCorrelations_def correlate_all_pairs)
  show "sorted_wrt (\<lambda>a b. sharedDesignParams b \<le> sharedDesignParams a) (analyzeCorrelations g)"
    by (simp add: analyzeCorrelations_def sort_desc_sorted)
next
  fix k1 k2
  show "correlate g k1 k2 \<noteq> [] \<longleftrightarrow> shared g Design k1 k2 \<noteq> {} \<or> shared g Verify k1 k2 \<noteq> {}"
    by (simp add: correlate_cases card_gt_0_iff)
  show "\<forall>c\<in>set (correlate g k1 k2).
          correlate g k1 k2 = [c] \<and> k_id (kpi1 c) = nid k1 \<and> k_id (kpi2 c) = nid k2 \<and>
          sharedDesignParams c = card (shared g Design k1 k2) \<and>
          sharedVerifications c = card (shared g Verify k1 k2) \<and>
          (correlationStrength c = Strong \<longleftrightarrow> 2 \<le> card (shared g Design k1 k2)) \<and>
          (correlationStrength c = Medium \<longleftrightarrow> card (shared g Design k1 k2) = 1)"
    by (simp add: correlate_cases)
  show "card (shared g Design k1 k2) = 2 \<and> shared g Verify k1 k2 = {} \<longrightarrow>
         (\<exists>c. correlate g k1 k2 = [c] \<and> correlationStrength c = Strong)"
    by (simp add: correlate_cases)
qed

theorem analyzeCorrelations_spec_witness:
  "card (shared shared_design Design (mk_kpi ''K1'' True) (mk_kpi ''K2'' False)) = 2 \<and>
   shared shared_design Verify (mk_kpi ''K1'' True) (mk_kpi ''K2'' False) = {} \<and>
   (\<exists>c. correlate shared_design (mk_kpi ''K1'' True) (mk_kpi ''K2'' False) = [c] \<and>
        correlationStrength c = Strong)"
proof -
  have d: "shared shared_design Design (mk_kpi ''K1'' True) (mk_kpi ''K2'' False) = {''D1'', ''D2''}"
    unfolding shared_def outgoing_ids_set[symmetric]
    by (simp add: outgoing_ids_def getConnectedNodes_def new_Set_def set_add_def
        shared_design_def mk_kpi_def mk_node_def mk_edge_def)
  have v: "shared shared_design Verify (mk_kpi ''K1'' True) (mk_kpi ''K2'' False) = {}"
    unfolding shared_def outgoing_ids_set[symmetric]
    by (simp add: outgoing_ids_def getConnectedNodes_def new_Set_def set_add_def
        shared_design_def mk_kpi_def mk_node_def mk_edge_def)
  have h: "card (shared shared_design Design (mk_kpi ''K1'' True) (mk_kpi ''K2'' False)) = 2"
    by (simp add: d)
  from analyzeCorrelations_spec[of shared_design, THEN conjunct2, THEN conjunct2,
      THEN spec, THEN spec, THEN conjunct2, THEN conjunct2,
      of "mk_kpi ''K1'' True" "mk_kpi ''K2'' False"] h v
  show ?thesis by blast
qed

section \<open>Properties of the parser\<close>

text \<open>
  C5. The intent and its confidence are those of the first rule, in the order stats,
  chain, impact, issue, suggest, compare, correlation, health, priority, display,
  whose keyword set matches the normalized query, and \<open>unknown\<close> with 0.5 when none
  does. A query that matches a stats keyword and a chain keyword is classified
  \<open>query_stats\<close> with confidence 0.9.
\<close>

theorem intent_first_match:
  "(intent (parseQuery toLowerCase q), confidence (parseQuery toLowerCase q)) =
     first_match intent_rules (trim (toLowerCase q)) \<and>
   (test_any stats_words (trim (toLowerCase q)) \<and> test_any chain_words (trim (toLowerCase q)) \<longrightarrow>
      intent (parseQuery toLowerCase q) = Query_stats \<and>
      confidence (parseQuery toLowerCase q) = 9 / 10)"
  by (simp add: parseQuery_def classify_intent_def intent_rules_def Let_def)

theorem intent_first_match_witness:
  "test_any stats_words (trim (ascii_toLowerCase stats_chain_query)) \<and>
   test_any chain_words (trim (ascii_toLowerCase stats_chain_query)) \<and>
   intent (parseQuery ascii_toLowerCase stats_chain_query) = Query_stats \<and>
   confidence (parseQuery ascii_toLowerCase stats_chain_query) = 9 / 10"
proof -
  have h1: "test_any stats_words (trim (ascii_toLowerCase stats_chain_query))" by code_simp
  have h2: "test_any chain_words (trim (ascii_toLowerCase stats_chain_query))" by code_simp
  from intent_first_match[of ascii_toLowerCase stats_chain_query, THEN conjunct2] h1 h2
  show ?thesis by blast
qed

text \<open>
  C4 does not hold of the code. The node-ID pattern takes a run of capitals and
  underscores, then digits, between two word boundaries, so an ID with a lower-case
  letter, or with a letter after a digit, is not matched at all: on the example query
  of the engine's own chain-trace prompt no \<open>node_id\<close> entity is found, and of the IDs
  \<open>KPI_FoldTime\<close>, \<open>D_MotorTorque\<close>, \<open>KPI_A1B\<close> none is extracted, while \<open>KPI_NVH\<close> is.
\<close>

theorem parseQuery_misses_node_id:
  "parseQuery ascii_toLowerCase chain_query =
     \<lparr>rawQuery = chain_query, intent = Trace_chain,
      entities = [\<lparr>etype = Category_entity, evalue = ascii ''kpi'', econfidence = 9 / 10\<rparr>],
      confidence = 9 / 10\<rparr> \<and>
   node_id_entities (ascii ''KPI_FoldTime'') = [] \<and>
   node_id_entities (ascii ''D_MotorTorque'') = [] \<and>
   node_id_entities (ascii ''KPI_A1B'') = [] \<and>
   node_id_entities (ascii ''KPI_NVH'') =
     [\<lparr>etype = Node_id, evalue = ascii ''KPI_NVH'', econfidence = 95 / 100\<rparr>]"
  by code_simp

end
